theory Spec2Isabelle
  imports Main "HOL-Library.Multiset" "HOL-Library.List_Lexorder"
begin

section \<open>JavaScript strings\<close>

text \<open>
  A JavaScript string is a sequence of UTF-16 code units. A code unit is modelled by its
  number, a string by the list of its code units. \<open>js\<close> reads an ASCII literal as such a
  string.
\<close>

type_synonym code_unit = nat
type_synonym jsstring = "code_unit list"

definition js :: "string \<Rightarrow> jsstring" where
  "js s = map of_char s"

text \<open>
  The regular-expression class \<open>\s\<close>, which is also what \<open>trim\<close>, \<open>trimStart\<close> and
  \<open>trimEnd\<close> remove: ECMAScript's WhiteSpace (TAB, VT, FF, SP, NBSP, ZWNBSP and the
  category Zs) and LineTerminator (LF, CR, LS, PS).
\<close>

definition is_space :: "code_unit \<Rightarrow> bool" where
  "is_space c \<longleftrightarrow>
     (9 \<le> c \<and> c \<le> 13) \<or> c = 32 \<or> c = 160 \<or> c = 5760 \<or> (8192 \<le> c \<and> c \<le> 8202) \<or>
     c = 8232 \<or> c = 8233 \<or> c = 8239 \<or> c = 8287 \<or> c = 12288 \<or> c = 65279"

text \<open>The characters that \<open>.\<close> does not match and at which a multiline \<open>^\<close> or \<open>$\<close> matches.\<close>

definition is_line_terminator :: "code_unit \<Rightarrow> bool" where
  "is_line_terminator c \<longleftrightarrow> c = 10 \<or> c = 13 \<or> c = 8232 \<or> c = 8233"

definition is_digit :: "code_unit \<Rightarrow> bool" where
  "is_digit c \<longleftrightarrow> 48 \<le> c \<and> c \<le> 57"

definition trimStart :: "jsstring \<Rightarrow> jsstring" where
  "trimStart s = dropWhile is_space s"

definition trimEnd :: "jsstring \<Rightarrow> jsstring" where
  "trimEnd s = rev (dropWhile is_space (rev s))"

definition trim :: "jsstring \<Rightarrow> jsstring" where
  "trim s = trimEnd (trimStart s)"

text \<open>
  \<open>String.prototype.toLowerCase\<close> follows the Unicode case tables of the platform; the
  functions that call it take it as the parameter \<open>toLowerCase\<close>. On a string of ASCII
  characters it maps \<open>A\<close> to \<open>Z\<close> onto \<open>a\<close> to \<open>z\<close> and changes nothing else, which is
  all that is assumed of it (\<open>lowers_ascii\<close>).
\<close>

definition ascii_lower :: "code_unit \<Rightarrow> code_unit" where
  "ascii_lower c = (if 65 \<le> c \<and> c \<le> 90 then c + 32 else c)"

definition ascii_toLowerCase :: "jsstring \<Rightarrow> jsstring" where
  "ascii_toLowerCase s = map ascii_lower s"

definition lowers_ascii :: "(jsstring \<Rightarrow> jsstring) \<Rightarrow> bool" where
  "lowers_ascii toLowerCase \<longleftrightarrow>
     (\<forall>s. (\<forall>c \<in> set s. c < 128) \<longrightarrow> toLowerCase s = map ascii_lower s)"

section \<open>slugify\<close>

text \<open>
  \<^verbatim>\<open>text.toLowerCase().replace(/[^a-z0-9\s-]/g, "").trim().replace(/\s+/g, "-")\<close>

  The first replacement deletes every code unit outside the class, so it keeps those
  inside it (\<open>slug_keep\<close>). The second replaces every maximal run of white space by one
  hyphen: \<open>\s+\<close> is greedy, and the search resumes after the run.
\<close>

definition slug_keep :: "code_unit \<Rightarrow> bool" where
  "slug_keep c \<longleftrightarrow> (97 \<le> c \<and> c \<le> 122) \<or> (48 \<le> c \<and> c \<le> 57) \<or> is_space c \<or> c = 45"

function spaces_to_hyphen :: "jsstring \<Rightarrow> jsstring" where
  "spaces_to_hyphen [] = []"
| "spaces_to_hyphen (c # cs) =
     (if is_space c then 45 # spaces_to_hyphen (dropWhile is_space cs)
      else c # spaces_to_hyphen cs)"
  by pat_completeness auto
termination
  by (relation "measure length") (auto simp: length_dropWhile_le less_Suc_eq_le)

definition slugify :: "(jsstring \<Rightarrow> jsstring) \<Rightarrow> jsstring \<Rightarrow> jsstring" where
  "slugify toLowerCase text =
     spaces_to_hyphen (trim (filter slug_keep (toLowerCase text)))"

text \<open>The characters a slug is made of: \<open>a\<close> to \<open>z\<close>, \<open>0\<close> to \<open>9\<close> and the hyphen.\<close>

definition slug_char :: "code_unit \<Rightarrow> bool" where
  "slug_char c \<longleftrightarrow> (97 \<le> c \<and> c \<le> 122) \<or> (48 \<le> c \<and> c \<le> 57) \<or> c = 45"

section \<open>Splitting into lines\<close>

text \<open>
  \<open>s.split("\n")\<close> cuts at every LINE FEED and always returns at least one piece;
  \<open>a.join("\n")\<close> puts the pieces together again.
\<close>

fun split_nl :: "jsstring \<Rightarrow> jsstring list" where
  "split_nl [] = [[]]"
| "split_nl (c # cs) =
     (if c = 10 then [] # split_nl cs
      else (case split_nl cs of l # ls \<Rightarrow> (c # l) # ls | [] \<Rightarrow> [[c]]))"

fun join_nl :: "jsstring list \<Rightarrow> jsstring" where
  "join_nl [] = []"
| "join_nl [l] = l"
| "join_nl (l # ls) = l @ 10 # join_nl ls"

section \<open>The outline of a document\<close>

text \<open>
  \<^verbatim>\<open>const m = /^(#{1,6})\s+(.+)$/.exec(line.trim());\<close>

  The pattern has no flag: \<open>^\<close> and \<open>$\<close> match at the two ends of the string only, and
  \<open>.\<close> matches every code unit but a line terminator. So \<open>(.+)$\<close> matches at a position
  exactly when what is left there is not empty and free of line terminators
  (\<open>text_to_end\<close>). The quantifiers are greedy and backtrack: \<open>spaces_then_text k r\<close> tries
  \<open>\s+\<close> on the first \<open>k\<close> code units of \<open>r\<close>, which are white space, then on fewer;
  \<open>hashes_then k t\<close> tries \<open>#{1,6}\<close> on the first \<open>k\<close> code units, then on fewer.
\<close>

definition text_to_end :: "jsstring \<Rightarrow> bool" where
  "text_to_end r \<longleftrightarrow> r \<noteq> [] \<and> list_all (\<lambda>c. \<not> is_line_terminator c) r"

fun spaces_then_text :: "nat \<Rightarrow> jsstring \<Rightarrow> jsstring option" where
  "spaces_then_text 0 r = None"
| "spaces_then_text (Suc k) r =
     (if text_to_end (drop (Suc k) r) then Some (drop (Suc k) r)
      else spaces_then_text k r)"

fun hashes_then :: "nat \<Rightarrow> jsstring \<Rightarrow> (nat \<times> jsstring) option" where
  "hashes_then 0 t = None"
| "hashes_then (Suc k) t =
     (case spaces_then_text (length (takeWhile is_space (drop (Suc k) t))) (drop (Suc k) t) of
        Some r \<Rightarrow> Some (Suc k, r)
      | None \<Rightarrow> hashes_then k t)"

definition heading_match :: "jsstring \<Rightarrow> (nat \<times> jsstring) option" where
  "heading_match t = hashes_then (min 6 (length (takeWhile (\<lambda>c. c = 35) t))) t"

record TocItem =
  toc_id :: jsstring
  toc_text :: jsstring
  toc_level :: nat

text \<open>
  \<^verbatim>\<open>const text = m[2].replace(/`/g, "").trim(); const id = slugify(text);\<close>
\<close>

definition toc_item :: "(jsstring \<Rightarrow> jsstring) \<Rightarrow> nat \<times> jsstring \<Rightarrow> TocItem" where
  "toc_item toLowerCase m =
     (let text = trim (filter (\<lambda>c. c \<noteq> 96) (snd m))
      in \<lparr>toc_id = slugify toLowerCase text, toc_text = text, toc_level = fst m\<rparr>)"

text \<open>The loop over the lines, pushing onto \<open>items\<close>.\<close>

fun toc_loop :: "(jsstring \<Rightarrow> jsstring) \<Rightarrow> jsstring list \<Rightarrow> TocItem list \<Rightarrow> TocItem list" where
  "toc_loop toLowerCase [] items = items"
| "toc_loop toLowerCase (line # lines) items =
     (case heading_match (trim line) of
        Some m \<Rightarrow> toc_loop toLowerCase lines (items @ [toc_item toLowerCase m])
      | None \<Rightarrow> toc_loop toLowerCase lines items)"

definition toc :: "(jsstring \<Rightarrow> jsstring) \<Rightarrow> jsstring \<Rightarrow> TocItem list" where
  "toc toLowerCase content = toc_loop toLowerCase (split_nl content) []"

text \<open>
  The outline as the specification words it: a trimmed line made of 1 to 6 \<open>#\<close>, one
  space (U+0020) and a remaining text gives one entry.
\<close>

definition spec_heading :: "jsstring \<Rightarrow> (nat \<times> jsstring) option" where
  "spec_heading t =
     (let n = length (takeWhile (\<lambda>c. c = 35) t); r = drop n t
      in if 1 \<le> n \<and> n \<le> 6 \<and> r \<noteq> [] \<and> hd r = 32 \<and> tl r \<noteq> [] then Some (n, tl r) else None)"

definition spec_outline :: "(jsstring \<Rightarrow> jsstring) \<Rightarrow> jsstring \<Rightarrow> TocItem list" where
  "spec_outline toLowerCase content =
     List.map_filter (\<lambda>line. map_option (toc_item toLowerCase) (spec_heading (trim line)))
       (split_nl content)"

section \<open>normalizeMd\<close>

text \<open>
  \<^verbatim>\<open>raw.replace(/\r\n?/g, "\n")\<close>: every CARRIAGE RETURN, together with a LINE FEED that
  follows it, becomes one LINE FEED.
\<close>

fun crlf_to_lf :: "jsstring \<Rightarrow> jsstring" where
  "crlf_to_lf [] = []"
| "crlf_to_lf [c] = (if c = 13 then [10] else [c])"
| "crlf_to_lf (c # d # ds) =
     (if c = 13 then (if d = 10 then 10 # crlf_to_lf ds else 10 # crlf_to_lf (d # ds))
      else c # crlf_to_lf (d # ds))"

text \<open>
  \<^verbatim>\<open>/<br\s*\/?>(?=\s|$)/gi\<close> at the start of \<open>s\<close>; the result is the length of the match.
  With the flag \<open>i\<close> (and no flag \<open>u\<close>) the letters match \<open>b\<close>, \<open>B\<close> and \<open>r\<close>, \<open>R\<close> only.
  The greedy choices are the only ones: after the white space taken by \<open>\s*\<close> comes a
  character that is not white space, and if \<open>\/?\<close> gives its slash back, \<open>>\<close> meets that
  slash. There is no flag \<open>m\<close>, so \<open>$\<close> is the end of the string, here of the line.
\<close>

definition match_br :: "jsstring \<Rightarrow> nat option" where
  "match_br s =
     (case s of
        a # b # c # rest \<Rightarrow>
          if a = 60 \<and> (b = 98 \<or> b = 66) \<and> (c = 114 \<or> c = 82) then
            (let ws = takeWhile is_space rest;
                 r1 = dropWhile is_space rest;
                 slash = (if r1 \<noteq> [] \<and> hd r1 = 47 then 1 else 0);
                 r2 = drop slash r1
             in if r2 \<noteq> [] \<and> hd r2 = 62 \<and> (tl r2 = [] \<or> is_space (hd (tl r2)))
                then Some (3 + length ws + slash + 1) else None)
          else None
      | _ \<Rightarrow> None)"

text \<open>
  \<^verbatim>\<open>t.replace(/<br\s*\/?>(?=\s|$)/gi, "\n")\<close>: the matches are looked for from left to
  right, and the search resumes after each match.
\<close>

function br_replace :: "jsstring \<Rightarrow> jsstring" where
  "br_replace [] = []"
| "br_replace (c # cs) =
     (case match_br (c # cs) of
        Some n \<Rightarrow> 10 # br_replace (drop n (c # cs))
      | None \<Rightarrow> c # br_replace cs)"
  by pat_completeness auto
termination
  by (relation "measure length")
    (auto simp: match_br_def Let_def split: list.splits if_splits)

text \<open>\<^verbatim>\<open>t.trimStart().startsWith("```")\<close>\<close>

definition fence_line :: "jsstring \<Rightarrow> bool" where
  "fence_line t \<longleftrightarrow> take 3 (trimStart t) = [96, 96, 96]"

text \<open>The loop of \<open>normalizeMd\<close> over the lines, with its variables \<open>inFence\<close> and \<open>out\<close>.\<close>

fun normalize_loop :: "jsstring list \<Rightarrow> bool \<Rightarrow> jsstring list \<Rightarrow> jsstring list" where
  "normalize_loop [] inFence out = out"
| "normalize_loop (t # ts) inFence out =
     (if fence_line t then normalize_loop ts (\<not> inFence) (out @ [t])
      else if inFence then normalize_loop ts inFence (out @ [t])
      else normalize_loop ts inFence (out @ [br_replace t]))"

definition normalizeMd :: "jsstring \<Rightarrow> jsstring" where
  "normalizeMd raw = join_nl (normalize_loop (split_nl (crlf_to_lf raw)) False [])"

text \<open>
  Line \<open>i\<close> of \<open>ls\<close> is inside a fenced code region when an odd number of fence
  delimiter lines come before it.
\<close>

definition in_fence :: "jsstring list \<Rightarrow> nat \<Rightarrow> bool" where
  "in_fence ls i \<longleftrightarrow> odd (length (filter fence_line (take i ls)))"

text \<open>
  Every string the break pattern matches, without its lookahead: \<open><\<close>, \<open>b\<close> or \<open>B\<close>,
  \<open>r\<close> or \<open>R\<close>, any white space, an optional slash, \<open>>\<close>.
\<close>

definition br_tag :: "jsstring \<Rightarrow> bool" where
  "br_tag m \<longleftrightarrow>
     (\<exists>b c ws slp. m = 60 # b # c # ws @ slp @ [62] \<and> (b = 98 \<or> b = 66) \<and>
        (c = 114 \<or> c = 82) \<and> (\<forall>x \<in> set ws. is_space x) \<and> (slp = [] \<or> slp = [47]))"

text \<open>
  A break tag stands alone at the start of \<open>s\<close> when white space or the end of the line
  follows it.
\<close>

definition standalone_br_at :: "jsstring \<Rightarrow> bool" where
  "standalone_br_at s \<longleftrightarrow>
     (\<exists>m post. s = m @ post \<and> br_tag m \<and> (post = [] \<or> is_space (hd post)))"

text \<open>
  The break markers the specification lists, \<open><br>\<close>, \<open><br/>\<close> and \<open><br />\<close>, in
  either case of each letter.
\<close>

definition br_marker :: "jsstring \<Rightarrow> bool" where
  "br_marker tag \<longleftrightarrow>
     (\<exists>b \<in> {98, 66}. \<exists>r \<in> {114, 82}. \<exists>mid \<in> {[], [47], [32, 47]}. tag = [60, b, r] @ mid @ [62])"

section \<open>The title of a document\<close>

text \<open>
  \<^verbatim>\<open>const heading = /^\s*#\s+(.+)$/m.exec(raw)?.[1].trim();\<close>

  With the flag \<open>m\<close>, \<open>^\<close> matches at the start of the string and after every line
  terminator, and \<open>$\<close> at the end of the string and before every line terminator. So
  \<open>(.+)$\<close> matches at a position exactly when a character that is no line terminator
  stands there, and captures up to the end of that line. \<open>spaces_then_line k r\<close> tries
  \<open>\s+\<close> on the first \<open>k\<close> code units of \<open>r\<close>, which are white space, then on fewer.
\<close>

fun spaces_then_line :: "nat \<Rightarrow> jsstring \<Rightarrow> jsstring option" where
  "spaces_then_line 0 r = None"
| "spaces_then_line (Suc k) r =
     (case drop (Suc k) r of
        c # cs \<Rightarrow>
          if \<not> is_line_terminator c
          then Some (takeWhile (\<lambda>x. \<not> is_line_terminator x) (c # cs))
          else spaces_then_line k r
      | [] \<Rightarrow> spaces_then_line k r)"

text \<open>
  An attempt of the pattern at a position where \<open>^\<close> matches; \<open>s\<close> is the text from
  there on. \<open>\s*\<close> has to take all the white space: after less of it comes white space,
  not \<open>#\<close>.
\<close>

definition title_at :: "jsstring \<Rightarrow> jsstring option" where
  "title_at s =
     (case dropWhile is_space s of
        c # r \<Rightarrow>
          if c = 35 then spaces_then_line (length (takeWhile is_space r)) r else None
      | [] \<Rightarrow> None)"

text \<open>
  \<open>exec\<close> tries the positions from left to right; \<open>bol\<close> says whether \<open>^\<close> matches at
  the current one.
\<close>

fun title_scan :: "bool \<Rightarrow> jsstring \<Rightarrow> jsstring option" where
  "title_scan bol [] = None"
| "title_scan bol (c # cs) =
     (case (if bol then title_at (c # cs) else None) of
        Some cap \<Rightarrow> Some cap
      | None \<Rightarrow> title_scan (is_line_terminator c) cs)"

definition heading :: "jsstring \<Rightarrow> jsstring option" where
  "heading raw = map_option trim (title_scan True raw)"

record DocCacheValue =
  normalized :: jsstring
  title :: "jsstring option"

text \<open>What the promise of \<open>loadDoc\<close> is fulfilled with, for the raw text the loader gave.\<close>

definition doc_of_raw :: "jsstring \<Rightarrow> DocCacheValue" where
  "doc_of_raw raw = \<lparr>normalized = normalizeMd raw, title = heading raw\<rparr>"





section \<open>The documents of a language\<close>

text \<open>
  JavaScript numbers, as far as \<open>order\<close> needs them: the integers that \<open>parseInt\<close>
  gives, the two infinities, and NaN for the difference of equal infinities.
\<close>

datatype jsnum = NegInfinity | Finite int | PosInfinity | NaN

fun js_minus :: "jsnum \<Rightarrow> jsnum \<Rightarrow> jsnum" where
  "js_minus (Finite a) (Finite b) = Finite (a - b)"
| "js_minus NaN y = NaN"
| "js_minus x NaN = NaN"
| "js_minus PosInfinity PosInfinity = NaN"
| "js_minus NegInfinity NegInfinity = NaN"
| "js_minus PosInfinity y = PosInfinity"
| "js_minus NegInfinity y = NegInfinity"
| "js_minus (Finite a) PosInfinity = NegInfinity"
| "js_minus (Finite a) NegInfinity = PosInfinity"

text \<open>\<open>a === b\<close> on numbers.\<close>

definition strict_eq :: "jsnum \<Rightarrow> jsnum \<Rightarrow> bool" where
  "strict_eq a b \<longleftrightarrow> a = b \<and> a \<noteq> NaN"

text \<open>\<open>v < 0\<close> on numbers.\<close>

fun negative :: "jsnum \<Rightarrow> bool" where
  "negative NegInfinity = True"
| "negative (Finite i) = (i < 0)"
| "negative PosInfinity = False"
| "negative NaN = False"

record Item =
  fileKey :: jsstring
  slug :: jsstring
  displaySlug :: jsstring
  item_title :: jsstring
  order :: jsnum

text \<open>\<^verbatim>\<open>k.startsWith(`../content/${language}/`)\<close>\<close>

definition language_prefix :: "jsstring \<Rightarrow> jsstring" where
  "language_prefix language = js ''../content/'' @ language @ js ''/''"

definition startsWith :: "jsstring \<Rightarrow> jsstring \<Rightarrow> bool" where
  "startsWith k p \<longleftrightarrow> take (length p) k = p"

text \<open>\<^verbatim>\<open>k.split("/").pop()\<close>: what follows the last slash.\<close>

definition filename_of :: "jsstring \<Rightarrow> jsstring" where
  "filename_of k = rev (takeWhile (\<lambda>c. c \<noteq> 47) (rev k))"

text \<open>\<^verbatim>\<open>filename.replace(/\.md$/, "")\<close>\<close>

definition strip_md :: "jsstring \<Rightarrow> jsstring" where
  "strip_md filename =
     (if 3 \<le> length filename \<and> drop (length filename - 3) filename = js ''.md''
      then take (length filename - 3) filename else filename)"

text \<open>
  \<^verbatim>\<open>/^(\d{2,3})[_-](.+)$/.exec(base)\<close>: \<open>\d{2,3}\<close> is greedy, three digits are tried
  before two. The result is the pair of the two groups.
\<close>

definition order_match_with :: "nat \<Rightarrow> jsstring \<Rightarrow> (jsstring \<times> jsstring) option" where
  "order_match_with n base =
     (if n < length base \<and> list_all is_digit (take n base) \<and>
         (base ! n = 95 \<or> base ! n = 45) \<and> text_to_end (drop (Suc n) base)
      then Some (take n base, drop (Suc n) base) else None)"

definition order_match :: "jsstring \<Rightarrow> (jsstring \<times> jsstring) option" where
  "order_match base =
     (case order_match_with 3 base of
        Some m \<Rightarrow> Some m
      | None \<Rightarrow> order_match_with 2 base)"

text \<open>\<open>parseInt(digits, 10)\<close> on a string of decimal digits.\<close>

definition parseInt10 :: "jsstring \<Rightarrow> int" where
  "parseInt10 digits = foldl (\<lambda>a c. 10 * a + (int c - 48)) 0 digits"

text \<open>
  \<^verbatim>\<open>displaySlug.replace(/[-_]/g, " ").replace(/\b\w/g, (c) => c.toUpperCase())\<close>:
  a word character \<open>[A-Za-z0-9_]\<close> that follows no word character is put in upper case.
\<close>

definition is_word :: "code_unit \<Rightarrow> bool" where
  "is_word c \<longleftrightarrow> (65 \<le> c \<and> c \<le> 90) \<or> (97 \<le> c \<and> c \<le> 122) \<or> (48 \<le> c \<and> c \<le> 57) \<or> c = 95"

definition ascii_upper :: "code_unit \<Rightarrow> code_unit" where
  "ascii_upper c = (if 97 \<le> c \<and> c \<le> 122 then c - 32 else c)"

fun capitalize_words :: "bool \<Rightarrow> jsstring \<Rightarrow> jsstring" where
  "capitalize_words after_word [] = []"
| "capitalize_words after_word (c # cs) =
     (if is_word c \<and> \<not> after_word then ascii_upper c else c) # capitalize_words (is_word c) cs"

definition fallbackTitle :: "jsstring \<Rightarrow> jsstring" where
  "fallbackTitle display_slug =
     capitalize_words False (map (\<lambda>c. if c = 45 \<or> c = 95 then 32 else c) display_slug)"

text \<open>The callback of \<open>keys.map\<close>.\<close>

definition item_of_key :: "jsstring \<Rightarrow> Item" where
  "item_of_key k =
     (let base = strip_md (filename_of k) in
      case order_match base of
        Some m \<Rightarrow>
          \<lparr>fileKey = k, slug = base, displaySlug = snd m,
           item_title = fallbackTitle (snd m), order = Finite (parseInt10 (fst m))\<rparr>
      | None \<Rightarrow>
          if base = js ''index''
          then \<lparr>fileKey = k, slug = base, displaySlug = js ''index'',
                item_title = fallbackTitle (js ''index''), order = NegInfinity\<rparr>
          else \<lparr>fileKey = k, slug = base, displaySlug = base,
                item_title = fallbackTitle base, order = PosInfinity\<rparr>)"

text \<open>
  The comparator of \<open>items.sort\<close>. \<open>String.prototype.localeCompare\<close> depends on the
  platform's collation and is the parameter \<open>localeCompare\<close>.
\<close>

definition compare_items :: "(jsstring \<Rightarrow> jsstring \<Rightarrow> int) \<Rightarrow> Item \<Rightarrow> Item \<Rightarrow> jsnum" where
  "compare_items localeCompare a b =
     (if strict_eq (order a) (order b) then Finite (localeCompare (item_title a) (item_title b))
      else js_minus (order a) (order b))"

text \<open>
  \<open>Array.prototype.sort\<close> is a stable sort: \<open>a\<close> comes before \<open>b\<close> when the comparator
  is negative on \<open>(a, b)\<close>, and elements that compare equal keep their order. It is
  modelled by the stable insertion sort, which puts each element before the first one
  it is less than; with a consistent comparator every stable sort gives the same list.
\<close>

fun insert_sorted :: "('a \<Rightarrow> 'a \<Rightarrow> jsnum) \<Rightarrow> 'a \<Rightarrow> 'a list \<Rightarrow> 'a list" where
  "insert_sorted cmp x [] = [x]"
| "insert_sorted cmp x (y # ys) =
     (if negative (cmp x y) then x # y # ys else y # insert_sorted cmp x ys)"

definition array_sort :: "('a \<Rightarrow> 'a \<Rightarrow> jsnum) \<Rightarrow> 'a list \<Rightarrow> 'a list" where
  "array_sort cmp xs = foldl (\<lambda>acc x. insert_sorted cmp x acc) [] xs"

definition sorted_items :: "(jsstring \<Rightarrow> jsstring \<Rightarrow> int) \<Rightarrow> jsstring list \<Rightarrow> jsstring \<Rightarrow> Item list" where
  "sorted_items localeCompare docKeys language =
     array_sort (compare_items localeCompare)
       (map item_of_key (filter (\<lambda>k. startsWith k (language_prefix language)) docKeys))"

text \<open>
  What is asked of \<open>localeCompare\<close> for the sort to be determined: it orders the strings
  totally, up to ties.
\<close>

definition consistent_compare :: "(jsstring \<Rightarrow> jsstring \<Rightarrow> int) \<Rightarrow> bool" where
  "consistent_compare localeCompare \<longleftrightarrow>
     (\<forall>a b. (localeCompare a b < 0) = (0 < localeCompare b a)) \<and>
     (\<forall>a b c. localeCompare a b \<le> 0 \<longrightarrow> localeCompare b c \<le> 0 \<longrightarrow> localeCompare a c \<le> 0)"

text \<open>Code unit order, a comparison that is consistent.\<close>

definition code_unit_compare :: "jsstring \<Rightarrow> jsstring \<Rightarrow> int" where
  "code_unit_compare a b = (if a < b then - 1 else if a = b then 0 else 1)"

text \<open>The order of the list as the specification has it: by \<open>order\<close>, ties by title.\<close>

fun num_less :: "jsnum \<Rightarrow> jsnum \<Rightarrow> bool" where
  "num_less NaN y = False"
| "num_less x NaN = False"
| "num_less NegInfinity y = (y \<noteq> NegInfinity)"
| "num_less (Finite a) (Finite b) = (a < b)"
| "num_less (Finite a) PosInfinity = True"
| "num_less (Finite a) NegInfinity = False"
| "num_less PosInfinity y = False"

definition item_le :: "(jsstring \<Rightarrow> jsstring \<Rightarrow> int) \<Rightarrow> Item \<Rightarrow> Item \<Rightarrow> bool" where
  "item_le localeCompare a b \<longleftrightarrow>
     num_less (order a) (order b) \<or>
     (order a = order b \<and> localeCompare (item_title a) (item_title b) \<le> 0)"

section \<open>The cache of loaded documents\<close>

text \<open>
  A promise is pending, fulfilled with a value, or rejected. The promises live in a
  store, a list in which a promise is named by its index; \<open>docCache\<close> maps a key to the
  promise made for it. \<open>loaderCalls\<close> records every call of a loader of \<open>docFiles\<close>,
  with the promise that the call will settle. The keys of \<open>docFiles\<close> are the parameter
  \<open>docKeys\<close>.
\<close>

datatype 'a promise_state = Pending | Fulfilled 'a | Rejected

record effect_run =
  cancelled :: bool
  language :: jsstring
  desired :: jsstring
  items :: "Item list"
  content_promise :: "nat option"
  content_pending :: bool
  item_promises :: "nat list"
  topics_pending :: bool

record page =
  promises :: "DocCacheValue promise_state list"
  docCache :: "(jsstring \<times> nat) list"
  loaderCalls :: "(jsstring \<times> nat) list"
  effects :: "effect_run list"
  content :: jsstring
  topics :: "(jsstring \<times> jsstring) list"

definition initial_page :: page where
  "initial_page =
     \<lparr>promises = [], docCache = [], loaderCalls = [], effects = [], content = [], topics = []\<rparr>"

text \<open>
  \<open>loadDoc\<close> returns a promise and changes the store: for a key without loader a new
  rejected promise, which is not cached; for a key that is not in the cache a new pending
  promise, put into the cache, after the loader has been called (the body of the
  \<open>async\<close> function runs up to its first \<open>await\<close> at once); otherwise the promise of the
  cache.
\<close>

definition loadDoc :: "jsstring list \<Rightarrow> jsstring \<Rightarrow> page \<Rightarrow> nat \<times> page" where
  "loadDoc docKeys k s =
     (if k \<notin> set docKeys
      then (length (promises s), s\<lparr>promises := promises s @ [Rejected]\<rparr>)
      else case map_of (docCache s) k of
             None \<Rightarrow>
               (length (promises s),
                s\<lparr>promises := promises s @ [Pending],
                  docCache := docCache s @ [(k, length (promises s))],
                  loaderCalls := loaderCalls s @ [(k, length (promises s))]\<rparr>)
           | Some p \<Rightarrow> (p, s))"

section \<open>The effect of the page\<close>

text \<open>\<^verbatim>\<open>`# 404\nNot found: ${language}/${desired}`\<close>\<close>

definition not_found :: "jsstring \<Rightarrow> jsstring \<Rightarrow> jsstring" where
  "not_found lang topic = js ''# 404\<newline>Not found: '' @ lang @ js ''/'' @ topic"

text \<open>
  \<^verbatim>\<open>let resolved = items.find((i) => i.displaySlug === desired)?.fileKey;
if (!resolved && docFiles[fallbackPath]) resolved = fallbackPath;\<close>

  followed by the test \<^verbatim>\<open>resolved && docFiles[resolved]\<close>. An empty string is falsy.
\<close>

definition resolve_key :: "jsstring list \<Rightarrow> Item list \<Rightarrow> jsstring \<Rightarrow> jsstring \<Rightarrow> jsstring option" where
  "resolve_key docKeys its lang topic =
     (let fallbackPath = language_prefix lang @ topic @ js ''.md'';
          found = map_option fileKey (find (\<lambda>i. displaySlug i = topic) its);
          resolved = (if (found = None \<or> found = Some []) \<and> fallbackPath \<in> set docKeys
                      then Some fallbackPath else found)
      in case resolved of
           Some k \<Rightarrow> if k \<noteq> [] \<and> k \<in> set docKeys then Some k else None
         | None \<Rightarrow> None)"

text \<open>The calls of \<open>loadDoc\<close> that \<open>items.map(async ...)\<close> makes, in the order of the items.\<close>

fun load_items :: "jsstring list \<Rightarrow> Item list \<Rightarrow> page \<Rightarrow> nat list \<times> page" where
  "load_items docKeys [] s = ([], s)"
| "load_items docKeys (i # is) s =
     (let (p, s1) = loadDoc docKeys (fileKey i) s;
          (ps, s2) = load_items docKeys is s1
      in (p # ps, s2))"

text \<open>
  One run of the effect for \<open>language\<close> and \<open>currentTopic\<close>. React runs the cleanup of
  the previous run first, which sets its \<open>cancelled\<close>. The body then publishes the topics
  with their fallback titles, starts the load of the resolved document or publishes the
  placeholder, and starts the loads of all documents. The callbacks that wait for a
  promise are kept in the \<open>effect_run\<close>: \<open>content_promise\<close> is the promise that \<open>then\<close>
  and \<open>catch\<close> of the content are attached to and \<open>content_pending\<close> says that they have
  not run yet; \<open>item_promises\<close> and \<open>topics_pending\<close> are the same for
  \<open>Promise.all(...).then\<close>.
\<close>

definition run_effect ::
  "(jsstring \<Rightarrow> jsstring \<Rightarrow> int) \<Rightarrow> jsstring list \<Rightarrow> jsstring \<Rightarrow> jsstring \<Rightarrow> page \<Rightarrow> page" where
  "run_effect localeCompare docKeys lang topic s =
     (let s0 = s\<lparr>effects := map (\<lambda>e. e\<lparr>cancelled := True\<rparr>) (effects s)\<rparr>;
          its = sorted_items localeCompare docKeys lang;
          s1 = s0\<lparr>topics := map (\<lambda>i. (displaySlug i, item_title i)) its\<rparr>;
          (cp, s2) =
            (case resolve_key docKeys its lang topic of
               Some k \<Rightarrow> (let (p, s') = loadDoc docKeys k s1 in (Some p, s'))
             | None \<Rightarrow> (None, s1\<lparr>content := not_found lang topic\<rparr>));
          (ps, s3) = load_items docKeys its s2
      in s3\<lparr>effects := effects s3 @
             [\<lparr>cancelled = False, language = lang, desired = topic, items = its,
               content_promise = cp, content_pending = (cp \<noteq> None),
               item_promises = ps, topics_pending = True\<rparr>]\<rparr>)"

text \<open>
  The callbacks of the content load: \<open>then\<close> if the promise is fulfilled, \<open>catch\<close> if it
  is rejected; both do nothing if the run is cancelled. \<open>published_content\<close> is what they
  pass to \<open>setContent\<close>, and what the body of the effect passes to it when no key is
  resolved.
\<close>

definition published_content :: "page \<Rightarrow> effect_run \<Rightarrow> jsstring" where
  "published_content s r =
     (case content_promise r of
        Some p \<Rightarrow>
          (case promises s ! p of
             Fulfilled doc \<Rightarrow> normalized doc
           | _ \<Rightarrow> not_found (language r) (desired r))
      | None \<Rightarrow> not_found (language r) (desired r))"

definition content_reaction :: "nat \<Rightarrow> page \<Rightarrow> page option" where
  "content_reaction e s =
     (if e < length (effects s) \<and> content_pending (effects s ! e) then
        (case content_promise (effects s ! e) of
           None \<Rightarrow> None
         | Some p \<Rightarrow>
             if p < length (promises s) \<and> promises s ! p \<noteq> Pending then
               (let r = effects s ! e;
                    s1 = s\<lparr>effects := (effects s)[e := r\<lparr>content_pending := False\<rparr>]\<rparr>
                in if cancelled r then Some s1
                   else Some (s1\<lparr>content := published_content s r\<rparr>))
             else None)
      else None)"

text \<open>
  \<^verbatim>\<open>try { const doc = await loadDoc(fileKey);
      return { slug: displaySlug, title: doc.title ?? title }; }
catch { return { slug: displaySlug, title }; }\<close>
\<close>

definition loaded_topic :: "DocCacheValue promise_state \<Rightarrow> Item \<Rightarrow> jsstring \<times> jsstring" where
  "loaded_topic st i =
     (case st of
        Fulfilled doc \<Rightarrow> (displaySlug i, case title doc of Some t \<Rightarrow> t | None \<Rightarrow> item_title i)
      | _ \<Rightarrow> (displaySlug i, item_title i))"

text \<open>
  The callback of \<open>Promise.all(...).then\<close>: it runs once every promise of the items is
  settled, and publishes the topics unless the run is cancelled.
\<close>

definition loaded_topics :: "page \<Rightarrow> effect_run \<Rightarrow> (jsstring \<times> jsstring) list" where
  "loaded_topics s r =
     map (\<lambda>(i, p). loaded_topic (promises s ! p) i) (zip (items r) (item_promises r))"

definition topics_reaction :: "nat \<Rightarrow> page \<Rightarrow> page option" where
  "topics_reaction e s =
     (if e < length (effects s) \<and> topics_pending (effects s ! e) \<and>
         list_all (\<lambda>p. p < length (promises s) \<and> promises s ! p \<noteq> Pending)
           (item_promises (effects s ! e))
      then
        (let r = effects s ! e;
             s1 = s\<lparr>effects := (effects s)[e := r\<lparr>topics_pending := False\<rparr>]\<rparr>
         in if cancelled r then Some s1
            else Some (s1\<lparr>topics := loaded_topics s r\<rparr>))
      else None)"

text \<open>
  A call of a loader completes, with the raw text or with a failure, and settles the
  promise of \<open>loadDoc\<close> that awaits it.
\<close>

definition settle :: "nat \<Rightarrow> jsstring option \<Rightarrow> page \<Rightarrow> page option" where
  "settle p result s =
     (if p < length (promises s) \<and> promises s ! p = Pending then
        Some (s\<lparr>promises := (promises s)[p :=
          (case result of Some raw \<Rightarrow> Fulfilled (doc_of_raw raw) | None \<Rightarrow> Rejected)]\<rparr>)
      else None)"

text \<open>
  What can happen to the page, one event at a time as on the event loop: the route
  changes and the effect runs again, a loader completes, a callback runs. A step is
  \<open>None\<close> when the event cannot happen in the state.
\<close>

datatype event =
  Resolve jsstring jsstring
| Settle nat "jsstring option"
| ContentReaction nat
| TopicsReaction nat

fun is_resolve :: "event \<Rightarrow> bool" where
  "is_resolve (Resolve lang topic) = True"
| "is_resolve ev = False"

fun step :: "(jsstring \<Rightarrow> jsstring \<Rightarrow> int) \<Rightarrow> jsstring list \<Rightarrow> event \<Rightarrow> page \<Rightarrow> page option" where
  "step localeCompare docKeys (Resolve lang topic) s =
     Some (run_effect localeCompare docKeys lang topic s)"
| "step localeCompare docKeys (Settle p result) s = settle p result s"
| "step localeCompare docKeys (ContentReaction e) s = content_reaction e s"
| "step localeCompare docKeys (TopicsReaction e) s = topics_reaction e s"

fun run :: "(jsstring \<Rightarrow> jsstring \<Rightarrow> int) \<Rightarrow> jsstring list \<Rightarrow> event list \<Rightarrow> page \<Rightarrow> page option" where
  "run localeCompare docKeys [] s = Some s"
| "run localeCompare docKeys (ev # evs) s =
     (case step localeCompare docKeys ev s of
        Some s' \<Rightarrow> run localeCompare docKeys evs s'
      | None \<Rightarrow> None)"

text \<open>The topics as the body of the effect publishes them, with the fallback titles.\<close>

definition fallback_topics :: "Item list \<Rightarrow> (jsstring \<times> jsstring) list" where
  "fallback_topics its = map (\<lambda>i. (displaySlug i, item_title i)) its"

text \<open>
  The states the page can be in have a cache that names promises of the store, and one
  entry, made by one call of a loader, for each of its keys.
\<close>

definition cache_ok :: "page \<Rightarrow> bool" where
  "cache_ok s \<longleftrightarrow>
     docCache s = loaderCalls s \<and> distinct (map fst (loaderCalls s)) \<and>
     list_all (\<lambda>kp. snd kp < length (promises s)) (docCache s)"

text \<open>
  What follows describes the page between one run of the effect and the next.
  \<open>run_core\<close> is a run without the two flags that its callbacks clear; a promise is
  settled when it is in the store and not pending.
\<close>

definition run_core :: "effect_run \<Rightarrow> effect_run" where
  "run_core r = r\<lparr>content_pending := False, topics_pending := False\<rparr>"

definition settled :: "page \<Rightarrow> nat \<Rightarrow> bool" where
  "settled s p \<longleftrightarrow> p < length (promises s) \<and> promises s ! p \<noteq> Pending"

text \<open>
  \<open>fresh_run s1\<close>: \<open>s1\<close> is a state in which the effect has just run. Its last run is
  not cancelled and all the others are; if no content load was started, the content is
  already the one of the last run.
\<close>

definition fresh_run :: "page \<Rightarrow> bool" where
  "fresh_run s1 \<longleftrightarrow>
     effects s1 \<noteq> [] \<and> \<not> cancelled (last (effects s1)) \<and>
     list_all cancelled (butlast (effects s1)) \<and>
     topics_pending (last (effects s1)) \<and>
     (content_pending (last (effects s1)) \<or>
      content s1 = published_content s1 (last (effects s1)) \<and>
      content_promise (last (effects s1)) = None)"

text \<open>
  \<open>tracks s1 s\<close>: \<open>s\<close> has the runs, the cache and the settled promises of \<open>s1\<close>, and
  what it shows is what \<open>s1\<close> showed, as long as the callback of the last run is pending,
  and what the last run of \<open>s1\<close> publishes, once that callback has run.
\<close>

definition tracks :: "page \<Rightarrow> page \<Rightarrow> bool" where
  "tracks s1 s \<longleftrightarrow>
     map run_core (effects s) = map run_core (effects s1) \<and>
     length (promises s) = length (promises s1) \<and>
     (\<forall>q. promises s1 ! q \<noteq> Pending \<longrightarrow> promises s ! q = promises s1 ! q) \<and>
     docCache s = docCache s1 \<and> loaderCalls s = loaderCalls s1 \<and>
     (if content_pending (last (effects s)) then content s = content s1
      else content s = published_content s (last (effects s1)) \<and>
           (case content_promise (last (effects s1)) of
              Some p \<Rightarrow> settled s p | None \<Rightarrow> True)) \<and>
     (if topics_pending (last (effects s)) then topics s = topics s1
      else topics s = loaded_topics s (last (effects s1)) \<and>
           list_all (settled s) (item_promises (last (effects s1))))"

section \<open>Auxiliary facts about lists\<close>

lemma takeWhile_all: "\<forall>c \<in> set xs. P c \<Longrightarrow> ys = [] \<or> \<not> P (hd ys) \<Longrightarrow> takeWhile P (xs @ ys) = xs"
  by (cases ys) (auto simp: takeWhile_append2)

lemma dropWhile_all: "\<forall>c \<in> set xs. P c \<Longrightarrow> dropWhile P (xs @ ys) = dropWhile P ys"
  by (simp add: dropWhile_append2)

section \<open>Properties of slugify\<close>

lemma js_Nil [simp]: "js [] = []"
  by (simp add: js_def)

lemma js_Cons [simp]: "js (c # cs) = of_char c # js cs"
  by (simp add: js_def)

lemma slug_char_not_space: "slug_char c \<Longrightarrow> \<not> is_space c"
  by (auto simp: slug_char_def is_space_def)

lemma slug_char_keep: "slug_char c \<Longrightarrow> slug_keep c"
  by (auto simp: slug_char_def slug_keep_def)

lemma slug_char_ascii: "slug_char c \<Longrightarrow> c < 128 \<and> ascii_lower c = c"
  by (auto simp: slug_char_def ascii_lower_def)

lemma keep_not_space: "slug_keep c \<Longrightarrow> \<not> is_space c \<Longrightarrow> slug_char c"
  by (auto simp: slug_char_def slug_keep_def)

lemma spaces_to_hyphen_chars:
  "\<forall>c \<in> set s. slug_keep c \<Longrightarrow> \<forall>c \<in> set (spaces_to_hyphen s). slug_char c"
proof (induction s rule: spaces_to_hyphen.induct)
  case 1
  show ?case by simp
next
  case (2 c cs)
  show ?case
  proof (cases "is_space c")
    case True
    have "\<forall>c \<in> set (dropWhile is_space cs). slug_keep c"
      using "2.prems" set_dropWhileD by fastforce
    with True "2.IH"(1) show ?thesis
      by (simp add: slug_char_def)
  next
    case False
    with "2.prems" "2.IH"(2) show ?thesis
      by (simp add: keep_not_space)
  qed
qed

lemma set_trim: "set (trim s) \<subseteq> set s"
proof -
  have "set (trimEnd t) \<subseteq> set t" for t
    unfolding trimEnd_def using set_dropWhileD [of _ is_space "rev t"] by auto
  moreover have "set (trimStart s) \<subseteq> set s"
    unfolding trimStart_def using set_dropWhileD [of _ is_space s] by auto
  ultimately show ?thesis
    unfolding trim_def by blast
qed

lemma slugify_chars: "\<forall>c \<in> set (slugify lc x). slug_char c"
proof -
  have "\<forall>c \<in> set (trim (filter slug_keep (lc x))). slug_keep c"
    using set_trim [of "filter slug_keep (lc x)"] by auto
  then show ?thesis
    unfolding slugify_def by (rule spaces_to_hyphen_chars)
qed

lemma no_space_dropWhile: "\<forall>c \<in> set s. \<not> is_space c \<Longrightarrow> dropWhile is_space s = s"
  by (cases s) auto

lemma trim_no_space: "\<forall>c \<in> set s. \<not> is_space c \<Longrightarrow> trim s = s"
  by (simp add: trim_def trimEnd_def trimStart_def no_space_dropWhile)

lemma spaces_to_hyphen_no_space:
  "\<forall>c \<in> set s. \<not> is_space c \<Longrightarrow> spaces_to_hyphen s = s"
  by (induction s) auto

lemma slugify_fixed:
  assumes lc: "lowers_ascii lc" and s: "\<forall>c \<in> set s. slug_char c"
  shows "slugify lc s = s"
proof -
  from s have "\<forall>c \<in> set s. c < 128" and "map ascii_lower s = s"
    by (auto simp: slug_char_ascii map_idI)
  with lc have "lc s = s"
    by (simp add: lowers_ascii_def)
  moreover from s have "filter slug_keep s = s"
    by (simp add: slug_char_keep)
  moreover from s have "\<forall>c \<in> set s. \<not> is_space c"
    by (simp add: slug_char_not_space)
  ultimately show ?thesis
    by (simp add: slugify_def trim_no_space spaces_to_hyphen_no_space)
qed

lemma lowers_ascii_ascii: "lowers_ascii ascii_toLowerCase"
  by (simp add: lowers_ascii_def ascii_toLowerCase_def)

lemma ascii_js: "\<forall>c \<in> set (js s). c < 128 \<Longrightarrow> lowers_ascii lc \<Longrightarrow> lc (js s) = map ascii_lower (js s)"
  by (simp add: lowers_ascii_def)

text \<open>
  C9. \<open>slugify\<close> lowercases its input, deletes every character outside
  \<open>[a-z0-9\s-]\<close>, trims, and turns each run of white space into one hyphen. For every
  \<open>toLowerCase\<close> that lowers ASCII strings as JavaScript does:
  \<open>slugify("Hello, World! 2.0") = "hello-world-20"\<close>,
  \<open>slugify("  multi   space  ") = "multi-space"\<close>, and \<open>slugify\<close> is idempotent on
  every string.
\<close>

theorem slugify_idempotent:
  assumes "lowers_ascii toLowerCase"
  shows "slugify toLowerCase (js ''Hello, World! 2.0'') = js ''hello-world-20'' \<and>
         slugify toLowerCase (js ''  multi   space  '') = js ''multi-space'' \<and>
         slugify toLowerCase (slugify toLowerCase x) = slugify toLowerCase x"
proof -
  have "toLowerCase (js ''Hello, World! 2.0'') = map ascii_lower (js ''Hello, World! 2.0'')"
    by (rule ascii_js [OF _ assms]) simp
  then have 1: "slugify toLowerCase (js ''Hello, World! 2.0'') = js ''hello-world-20''"
    by (simp add: slugify_def ascii_lower_def slug_keep_def is_space_def trim_def
        trimStart_def trimEnd_def)
  have "toLowerCase (js ''  multi   space  '') = map ascii_lower (js ''  multi   space  '')"
    by (rule ascii_js [OF _ assms]) simp
  then have 2: "slugify toLowerCase (js ''  multi   space  '') = js ''multi-space''"
    by (simp add: slugify_def ascii_lower_def slug_keep_def is_space_def trim_def
        trimStart_def trimEnd_def)
  have 3: "slugify toLowerCase (slugify toLowerCase x) = slugify toLowerCase x"
    using assms slugify_chars by (rule slugify_fixed)
  from 1 2 3 show ?thesis by blast
qed

theorem slugify_idempotent_witness:
  "lowers_ascii ascii_toLowerCase \<and>
   slugify ascii_toLowerCase (js ''Hello, World! 2.0'') = js ''hello-world-20'' \<and>
   slugify ascii_toLowerCase (slugify ascii_toLowerCase (js ''A  b'')) =
     slugify ascii_toLowerCase (js ''A  b'')"
  using slugify_idempotent [OF lowers_ascii_ascii, of "js ''A  b''"] lowers_ascii_ascii
  by blast


section \<open>Properties of the outline\<close>

lemma last_dropWhile: "dropWhile P xs \<noteq> [] \<Longrightarrow> last (dropWhile P xs) = last xs"
  by (induction xs) (auto split: if_splits)

lemma trimmed_ends: "trim l = [] \<or> (\<not> is_space (hd (trim l)) \<and> \<not> is_space (last (trim l)))"
proof (cases "trim l = []")
  case True then show ?thesis by simp
next
  case False
  let ?a = "dropWhile is_space l"
  let ?b = "dropWhile is_space (rev ?a)"
  have t: "trim l = rev ?b" by (simp add: trim_def trimEnd_def trimStart_def)
  with False have b: "?b \<noteq> []" by simp
  then have hb: "\<not> is_space (hd ?b)" by (rule hd_dropWhile)
  from b have "rev ?a \<noteq> []" by (metis dropWhile.simps(1))
  then have a: "?a \<noteq> []" by simp
  then have ha: "\<not> is_space (hd ?a)" by (rule hd_dropWhile)
  have "last (trim l) = hd ?b" using b t by (simp add: last_rev)
  moreover have "hd (trim l) = hd ?a"
  proof -
    have "hd (trim l) = last ?b" using b t by (simp add: hd_rev)
    also have "\<dots> = last (rev ?a)" using b by (rule last_dropWhile)
    also have "\<dots> = hd ?a" using a by (simp add: last_rev)
    finally show ?thesis .
  qed
  ultimately show ?thesis using ha hb by simp
qed

lemma stt_none:
  "\<not> list_all (\<lambda>c. \<not> is_line_terminator c) (drop k0 r) \<Longrightarrow> k \<le> k0 \<Longrightarrow> spaces_then_text k r = None"
proof (induction k)
  case 0 show ?case by simp
next
  case (Suc k)
  have "drop k0 r = drop (k0 - Suc k) (drop (Suc k) r)" using Suc.prems(2) by simp
  with Suc.prems(1) have "\<not> list_all (\<lambda>c. \<not> is_line_terminator c) (drop (Suc k) r)"
    by (metis in_set_dropD list_all_iff)
  with Suc show ?case by (simp add: text_to_end_def)
qed

lemma stt_greedy: "text_to_end (drop k r) \<Longrightarrow> 0 < k \<Longrightarrow> spaces_then_text k r = Some (drop k r)"
  by (cases k) auto

lemma drop_takeWhile_len: "drop (length (takeWhile P xs)) xs = dropWhile P xs"
  by (induction xs) auto

lemma hashes_lt_none:
  "k < length (takeWhile (\<lambda>c. c = 35) t) \<Longrightarrow> hashes_then k t = None"
proof (induction k)
  case 0 show ?case by simp
next
  case (Suc k)
  let ?tw = "takeWhile (\<lambda>c. c = 35) t"
  have "drop (Suc k) t = drop (Suc k) ?tw @ dropWhile (\<lambda>c. c = 35) t"
    using Suc.prems by (metis drop_append takeWhile_dropWhile_id less_imp_le_nat diff_is_0_eq drop0)
  moreover have "drop (Suc k) ?tw \<noteq> []" using Suc.prems by simp
  moreover have "\<forall>c \<in> set (drop (Suc k) ?tw). c = 35"
    by (metis in_set_dropD set_takeWhileD)
  ultimately obtain rest where "drop (Suc k) t = 35 # rest"
    by (cases "drop (Suc k) ?tw") auto
  then have "takeWhile is_space (drop (Suc k) t) = []" by (simp add: is_space_def)
  with Suc show ?case by simp
qed

lemma takeWhile_replicate_append:
  "takeWhile (\<lambda>c. c = a) (replicate n a @ ys) = replicate n a @ takeWhile (\<lambda>c. c = a) ys"
  by (induction n) auto

lemma heading_match_iff:
  assumes tr: "t = [] \<or> \<not> is_space (last t)"
  shows "heading_match t = Some (n, cap) \<longleftrightarrow>
    (\<exists>ws. t = replicate n 35 @ ws @ cap \<and> 1 \<le> n \<and> n \<le> 6 \<and> ws \<noteq> [] \<and> (\<forall>c \<in> set ws. is_space c) \<and>
          cap \<noteq> [] \<and> \<not> is_space (hd cap) \<and> (\<forall>c \<in> set cap. \<not> is_line_terminator c))"
  (is "?L \<longleftrightarrow> ?R")
proof
  assume ?R
  then obtain ws where t: "t = replicate n 35 @ ws @ cap" and n: "1 \<le> n" "n \<le> 6"
    and ws: "ws \<noteq> []" "\<forall>c \<in> set ws. is_space c"
    and cap: "cap \<noteq> []" "\<not> is_space (hd cap)" "\<forall>c \<in> set cap. \<not> is_line_terminator c"
    by blast
  from ws have "is_space (hd ws)" by simp
  then have "hd ws \<noteq> 35" by (auto simp: is_space_def)
  with ws have "takeWhile (\<lambda>c. c = 35) (ws @ cap) = []" by (cases ws) auto
  then have tw: "takeWhile (\<lambda>c. c = 35) t = replicate n 35"
    unfolding t by (simp add: takeWhile_replicate_append)
  have d: "drop n t = ws @ cap" unfolding t by simp
  have tws: "takeWhile is_space (ws @ cap) = ws"
    using ws cap by (cases cap) (auto simp: takeWhile_append2)
  have "spaces_then_text (length ws) (ws @ cap) = Some (drop (length ws) (ws @ cap))"
    using ws cap by (intro stt_greedy) (auto simp: text_to_end_def list_all_iff)
  then have s: "spaces_then_text (length ws) (ws @ cap) = Some cap" by simp
  from n obtain k where k: "n = Suc k" by (cases n) auto
  have "hashes_then n t = Some (n, cap)"
    unfolding k hashes_then.simps using d tws s by (simp add: k)
  then show ?L using tw n by (simp add: heading_match_def)
next
  assume L: ?L
  let ?m = "length (takeWhile (\<lambda>c. c = 35) t)"
  have m6: "min 6 ?m = ?m"
  proof (rule ccontr)
    assume "min 6 ?m \<noteq> ?m"
    then have "min 6 ?m < ?m" by simp
    then have "hashes_then (min 6 ?m) t = None" by (rule hashes_lt_none)
    with L show False by (simp add: heading_match_def)
  qed
  with L have h: "hashes_then ?m t = Some (n, cap)" by (simp add: heading_match_def)
  then obtain k where k: "?m = Suc k" by (cases ?m) auto
  let ?r = "drop ?m t"
  let ?ws = "takeWhile is_space ?r"
  let ?rest = "dropWhile is_space ?r"
  have kn: "hashes_then k t = None" by (rule hashes_lt_none) (simp add: k)
  from h have s: "spaces_then_text (length ?ws) ?r = Some cap" and nm: "n = ?m"
    using kn by (auto simp: k split: option.splits)
  have ws0: "?ws \<noteq> []" using s by (cases "?ws") auto
  have rest_ne: "?rest \<noteq> []"
  proof
    assume e: "?rest = []"
    from ws0 have rne: "?r \<noteq> []" by auto
    then have "last t = last ?r" by simp
    moreover from e have "\<forall>c \<in> set ?r. is_space c" by (simp add: dropWhile_eq_Nil_conv)
    ultimately have "is_space (last t)" using rne last_in_set by metis
    moreover from rne have "t \<noteq> []" by auto
    ultimately show False using tr by simp
  qed
  have dr: "drop (length ?ws) ?r = ?rest" by (rule drop_takeWhile_len)
  have lt: "list_all (\<lambda>c. \<not> is_line_terminator c) ?rest"
  proof (rule ccontr)
    assume "\<not> ?thesis"
    then have "spaces_then_text (length ?ws) ?r = None"
      using stt_none [of "length ?ws" ?r "length ?ws"] dr by simp
    with s show False by simp
  qed
  have "spaces_then_text (length ?ws) ?r = Some (drop (length ?ws) ?r)"
    using ws0 rest_ne lt dr by (intro stt_greedy) (auto simp: text_to_end_def)
  with s dr have cap: "cap = ?rest" by simp
  have "t = takeWhile (\<lambda>c. c = 35) t @ ?r"
    by (metis append_take_drop_id takeWhile_eq_take)
  moreover have "takeWhile (\<lambda>c. c = 35) t = replicate ?m 35"
    by (metis (mono_tags, lifting) replicate_length_same set_takeWhileD)
  ultimately have A: "t = replicate n 35 @ ?ws @ cap"
    using nm cap by (metis takeWhile_dropWhile_id)
  have B: "\<forall>c \<in> set ?ws. is_space c" by (metis set_takeWhileD)
  have C: "\<not> is_space (hd cap)" using rest_ne cap hd_dropWhile by metis
  have D: "1 \<le> n \<and> n \<le> 6" using nm k m6 by auto
  have E: "cap \<noteq> []" using rest_ne cap by simp
  have F: "\<forall>c \<in> set cap. \<not> is_line_terminator c" using lt cap by (simp add: list_all_iff)
  from A B C D E F ws0 show ?R by blast
qed

lemma spaces_then_text_unfold:
  "spaces_then_text k r =
     (if k = 0 then None
      else if text_to_end (drop k r) then Some (drop k r) else spaces_then_text (k - 1) r)"
  by (cases k) auto

lemma hashes_then_unfold:
  "hashes_then k t =
     (if k = 0 then None
      else case spaces_then_text (length (takeWhile is_space (drop k t))) (drop k t) of
             Some r \<Rightarrow> Some (k, r)
           | None \<Rightarrow> hashes_then (k - 1) t)"
  by (cases k) (auto split: option.splits)

lemma toc_loop_eq:
  "toc_loop lc lines acc =
     acc @ List.map_filter (\<lambda>line. map_option (toc_item lc) (heading_match (trim line))) lines"
  by (induction lines arbitrary: acc) (auto split: option.splits)

lemma toc_example:
  assumes "lowers_ascii lc"
  shows "toc lc (js ''# Title\<newline>\<newline>Some text\<newline>## Sub `code` Heading\<newline>'') =
    [\<lparr>toc_id = js ''title'', toc_text = js ''Title'', toc_level = 1\<rparr>,
     \<lparr>toc_id = js ''sub-code-heading'', toc_text = js ''Sub code Heading'', toc_level = 2\<rparr>]"
proof -
  have 1: "lc (js ''Title'') = map ascii_lower (js ''Title'')"
    by (rule ascii_js [OF _ assms]) simp
  have 2: "lc (js ''Sub code Heading'') = map ascii_lower (js ''Sub code Heading'')"
    by (rule ascii_js [OF _ assms]) simp
  have t1: "trim (js ''# Title'') = js ''# Title''"
    by (simp add: trim_def trimStart_def trimEnd_def is_space_def)
  have t2: "trim (js ''## Sub `code` Heading'') = js ''## Sub `code` Heading''"
    by (simp add: trim_def trimStart_def trimEnd_def is_space_def)
  have t3: "trim (js ''Some text'') = js ''Some text''"
    by (simp add: trim_def trimStart_def trimEnd_def is_space_def)
  have t4: "trim [] = []"
    by (simp add: trim_def trimStart_def trimEnd_def)
  have h1: "heading_match (js ''# Title'') = Some (1, js ''Title'')"
    by (simp add: heading_match_def text_to_end_def is_space_def is_line_terminator_def
        hashes_then_unfold spaces_then_text_unfold)
  have h2: "heading_match (js ''## Sub `code` Heading'') = Some (2, js ''Sub `code` Heading'')"
    by (simp add: heading_match_def text_to_end_def is_space_def is_line_terminator_def
        hashes_then_unfold spaces_then_text_unfold)
  have h3: "heading_match (js ''Some text'') = None"
    by (simp add: heading_match_def)
  have h4: "heading_match [] = None"
    by (simp add: heading_match_def)
  have i1: "toc_item lc (1, js ''Title'') = \<lparr>toc_id = js ''title'', toc_text = js ''Title'', toc_level = 1\<rparr>"
    using 1 by (simp add: toc_item_def slugify_def trim_def trimStart_def trimEnd_def is_space_def
        slug_keep_def ascii_lower_def)
  have i2: "toc_item lc (2, js ''Sub `code` Heading'') =
      \<lparr>toc_id = js ''sub-code-heading'', toc_text = js ''Sub code Heading'', toc_level = 2\<rparr>"
    using 2 by (simp add: toc_item_def slugify_def trim_def trimStart_def trimEnd_def is_space_def
        slug_keep_def ascii_lower_def)
  have s: "split_nl (js ''# Title\<newline>\<newline>Some text\<newline>## Sub `code` Heading\<newline>'') =
     [js ''# Title'', [], js ''Some text'', js ''## Sub `code` Heading'', []]"
    by simp
  show ?thesis
    unfolding toc_def s using t1 t2 t3 t4 h1 h2 h3 h4 i1 i2 by simp
qed

text \<open>
  The specification's wording fails on a heading whose \<open>#\<close> is followed by a TAB: the
  pattern's \<open>\s+\<close> accepts it and the line gives an entry, where "one space" gives none.
\<close>

theorem toc_one_space_counterexample:
  "toc ascii_toLowerCase (35 # 9 # js ''Title'') =
     [\<lparr>toc_id = js ''title'', toc_text = js ''Title'', toc_level = 1\<rparr>] \<and>
   spec_outline ascii_toLowerCase (35 # 9 # js ''Title'') = []"
  by (simp add: toc_def spec_outline_def spec_heading_def heading_match_def text_to_end_def
      hashes_then_unfold spaces_then_text_unfold is_space_def is_line_terminator_def trim_def trimStart_def trimEnd_def
      toc_item_def slugify_def slug_keep_def ascii_lower_def ascii_toLowerCase_def)

lemma spec_outline_example:
  "spec_outline ascii_toLowerCase
     (js ''# Title\<newline>\<newline>Some text\<newline>## Sub `code` Heading\<newline>'') =
    [\<lparr>toc_id = js ''title'', toc_text = js ''Title'', toc_level = 1\<rparr>,
     \<lparr>toc_id = js ''sub-code-heading'', toc_text = js ''Sub code Heading'', toc_level = 2\<rparr>]"
  by (simp add: spec_outline_def spec_heading_def trim_def trimStart_def trimEnd_def
      is_space_def toc_item_def slugify_def slug_keep_def ascii_lower_def
      ascii_toLowerCase_def)

text \<open>
  C8, amended. \<open>toc\<close> scans every line of the content, trimmed, whether inside a fenced
  code region or not, and keeps the order: its result is the list of the entries of the
  lines that match, nothing filtered and nothing deduplicated. A trimmed line matches
  exactly when it is 1 to 6 \<open>#\<close>, then one or more white-space characters (not only one
  space), then a remaining text that contains no line terminator; the entry's level is the
  number of \<open>#\<close>, its text the remaining text without backticks, trimmed, and its id the
  slug of that text. The specification's example gives the two entries it lists.
\<close>

theorem toc_outline:
  "toc lc txt =
     List.map_filter (\<lambda>line. map_option (toc_item lc) (heading_match (trim line)))
       (split_nl txt) \<and>
   (heading_match (trim line) = Some (n, cap) \<longleftrightarrow>
     (\<exists>ws. trim line = replicate n 35 @ ws @ cap \<and> 1 \<le> n \<and> n \<le> 6 \<and>
           ws \<noteq> [] \<and> (\<forall>c \<in> set ws. is_space c) \<and>
           cap \<noteq> [] \<and> \<not> is_space (hd cap) \<and> (\<forall>c \<in> set cap. \<not> is_line_terminator c))) \<and>
   toc_item lc (n, cap) =
     \<lparr>toc_id = slugify lc (trim (filter (\<lambda>c. c \<noteq> 96) cap)),
      toc_text = trim (filter (\<lambda>c. c \<noteq> 96) cap), toc_level = n\<rparr> \<and>
   (lowers_ascii lc \<longrightarrow>
     toc lc (js ''# Title\<newline>\<newline>Some text\<newline>## Sub `code` Heading\<newline>'') =
       [\<lparr>toc_id = js ''title'', toc_text = js ''Title'', toc_level = 1\<rparr>,
        \<lparr>toc_id = js ''sub-code-heading'', toc_text = js ''Sub code Heading'',
         toc_level = 2\<rparr>])"
proof -
  have "trim line = [] \<or> \<not> is_space (last (trim line))"
    using trimmed_ends [of line] by blast
  then have m: "heading_match (trim line) = Some (n, cap) \<longleftrightarrow>
     (\<exists>ws. trim line = replicate n 35 @ ws @ cap \<and> 1 \<le> n \<and> n \<le> 6 \<and>
           ws \<noteq> [] \<and> (\<forall>c \<in> set ws. is_space c) \<and>
           cap \<noteq> [] \<and> \<not> is_space (hd cap) \<and> (\<forall>c \<in> set cap. \<not> is_line_terminator c))"
    by (rule heading_match_iff)
  have l: "toc lc txt =
     List.map_filter (\<lambda>line. map_option (toc_item lc) (heading_match (trim line)))
       (split_nl txt)"
    by (simp add: toc_def toc_loop_eq)
  have i: "toc_item lc (n, cap) =
     \<lparr>toc_id = slugify lc (trim (filter (\<lambda>c. c \<noteq> 96) cap)),
      toc_text = trim (filter (\<lambda>c. c \<noteq> 96) cap), toc_level = n\<rparr>"
    by (simp add: toc_item_def Let_def)
  from l m i toc_example show ?thesis
    by blast
qed

theorem toc_outline_witness:
  "lowers_ascii ascii_toLowerCase \<and>
   toc ascii_toLowerCase
     (js ''# Title\<newline>\<newline>Some text\<newline>## Sub `code` Heading\<newline>'') =
    [\<lparr>toc_id = js ''title'', toc_text = js ''Title'', toc_level = 1\<rparr>,
     \<lparr>toc_id = js ''sub-code-heading'', toc_text = js ''Sub code Heading'', toc_level = 2\<rparr>]"
  using toc_outline [of ascii_toLowerCase "[]" "[]" 0 "[]"] lowers_ascii_ascii
  by blast

section \<open>Properties of normalizeMd\<close>

lemma crlf_no_cr: "13 \<notin> set (crlf_to_lf s)"
  by (induction s rule: crlf_to_lf.induct) auto

lemma crlf_id: "13 \<notin> set s \<Longrightarrow> crlf_to_lf s = s"
  by (induction s rule: crlf_to_lf.induct) auto

lemma set_crlf: "set (crlf_to_lf s) \<subseteq> insert 10 (set s)"
  by (induction s rule: crlf_to_lf.induct) auto

lemma split_nl_ne: "split_nl s \<noteq> []"
  by (induction s) (auto split: list.splits)

lemma join_split: "join_nl (split_nl s) = s"
proof (induction s)
  case Nil show ?case by simp
next
  case (Cons c cs)
  obtain l ls where e: "split_nl cs = l # ls"
    using split_nl_ne [of cs] by (cases "split_nl cs") auto
  with Cons show ?case by (cases ls) auto
qed

lemma set_split_nl: "l \<in> set (split_nl s) \<Longrightarrow> set l \<subseteq> set s"
proof (induction s arbitrary: l)
  case Nil then show ?case by simp
next
  case (Cons c cs)
  obtain l' ls where e: "split_nl cs = l' # ls"
    using split_nl_ne [of cs] by (cases "split_nl cs") auto
  have l': "set l' \<subseteq> set cs" using Cons.IH [of l'] e by simp
  have ls: "set k \<subseteq> set cs" if "k \<in> set ls" for k using Cons.IH [of k] e that by simp
  show ?case
  proof (cases "c = 10")
    case True
    with Cons.prems e have "l = [] \<or> l = l' \<or> l \<in> set ls" by simp
    with l' ls show ?thesis by auto
  next
    case False
    with Cons.prems e have "l = c # l' \<or> l \<in> set ls" by simp
    with l' ls show ?thesis by auto
  qed
qed

lemma set_join_nl: "set (join_nl ls) \<subseteq> insert 10 (\<Union> (set ` set ls))"
  by (induction ls rule: join_nl.induct) auto

lemma space_consts: "\<not> is_space 62" "\<not> is_space 47" "is_space 32" "\<not> is_space 60"
  by (simp_all add: is_space_def)

lemma match_br_shape:
  assumes "match_br s = Some n"
  shows "\<exists>b c ws slp r3. s = 60 # b # c # ws @ slp @ 62 # r3 \<and> n = 4 + length ws + length slp \<and>
           (b = 98 \<or> b = 66) \<and> (c = 114 \<or> c = 82) \<and> (\<forall>x \<in> set ws. is_space x) \<and>
           (slp = [] \<or> slp = [47]) \<and> (r3 = [] \<or> is_space (hd r3))"
proof -
  from assms obtain a b c rest where s: "s = a # b # c # rest"
    by (auto simp: match_br_def split: list.splits)
  let ?ws = "takeWhile is_space rest"
  let ?r1 = "dropWhile is_space rest"
  let ?sl = "if ?r1 \<noteq> [] \<and> hd ?r1 = 47 then 1 else (0::nat)"
  let ?r2 = "drop ?sl ?r1"
  from assms s have a: "a = 60" and b: "b = 98 \<or> b = 66" and c: "c = 114 \<or> c = 82"
    by (auto simp: match_br_def split: if_splits)
  from assms s a b c have r2: "?r2 \<noteq> []" "hd ?r2 = 62" "tl ?r2 = [] \<or> is_space (hd (tl ?r2))"
    and n: "n = 3 + length ?ws + ?sl + 1"
    by (auto simp: match_br_def Let_def split: if_splits)
  have slp: "take ?sl ?r1 = [] \<or> take ?sl ?r1 = [47]"
    by (cases ?r1) auto
  have lsl: "length (take ?sl ?r1) = ?sl"
    by (cases ?r1) auto
  from r2 have r2e: "?r2 = 62 # tl ?r2"
    by (cases ?r2) auto
  have "rest = ?ws @ take ?sl ?r1 @ ?r2"
    by simp
  with r2e have "rest = ?ws @ take ?sl ?r1 @ 62 # tl ?r2"
    by metis
  with s a have "s = 60 # b # c # ?ws @ take ?sl ?r1 @ 62 # tl ?r2"
    by simp
  moreover have "n = 4 + length ?ws + length (take ?sl ?r1)"
    using n lsl by simp
  moreover have "\<forall>x \<in> set ?ws. is_space x"
    by (metis set_takeWhileD)
  ultimately show ?thesis
    using b c slp r2(3) by blast
qed

lemma match_br_inner:
  assumes "match_br s = Some n"
  shows "0 < n \<and> n \<le> length s \<and> 60 \<notin> set (tl (take n s))"
proof -
  from match_br_shape [OF assms] obtain b c ws slp r3 where
    s: "s = 60 # b # c # ws @ slp @ 62 # r3" and n: "n = 4 + length ws + length slp"
    and b: "b = 98 \<or> b = 66" and c: "c = 114 \<or> c = 82" and ws: "\<forall>x \<in> set ws. is_space x"
    and slp: "slp = [] \<or> slp = [47]"
    by blast
  have "s = ([60, b, c] @ ws @ slp @ [62]) @ r3" using s by simp
  moreover have "n = length ([60, b, c] @ ws @ slp @ [62])" using n by simp
  ultimately have "take n s = [60, b, c] @ ws @ slp @ [62]"
    by (metis append_eq_conv_conj)
  then have "tl (take n s) = [b, c] @ ws @ slp @ [62]" by simp
  moreover have "60 \<notin> set ws" using ws space_consts(4) by blast
  ultimately have "60 \<notin> set (tl (take n s))" using b c slp by auto
  moreover have "n \<le> length s" using s n by simp
  ultimately show ?thesis using n by simp
qed

lemma match_br_marker:
  assumes "br_marker tag" and "post = [] \<or> is_space (hd post)"
  shows "match_br (tag @ post) = Some (length tag)"
  using assms
  by (cases post) (auto simp: br_marker_def match_br_def space_consts)

lemma set_br_replace: "set (br_replace s) \<subseteq> insert 10 (set s)"
proof (induction s rule: br_replace.induct)
  case 1 show ?case by simp
next
  case (2 c cs)
  show ?case
  proof (cases "match_br (c # cs)")
    case None
    with 2 show ?thesis by auto
  next
    case (Some n)
    have "set (drop n (c # cs)) \<subseteq> set (c # cs)" by (rule set_drop_subset)
    with 2(2) [OF Some] Some show ?thesis by auto
  qed
qed

lemma match_br_hd: "match_br s = Some n \<Longrightarrow> 60 \<in> set s"
  using match_br_shape [of s n] by auto

lemma br_replace_id: "60 \<notin> set s \<Longrightarrow> br_replace s = s"
proof (induction s)
  case Nil show ?case by simp
next
  case (Cons c cs)
  have "match_br (c # cs) = None"
    using match_br_hd [of "c # cs"] Cons.prems by (cases "match_br (c # cs)") auto
  with Cons show ?case by simp
qed

lemma marker_replaced:
  assumes tag: "br_marker tag" and post: "post = [] \<or> is_space (hd post)"
  shows "\<exists>out. br_replace (pre @ tag @ post) = out @ 10 # br_replace post"
proof (induction "length pre" arbitrary: pre rule: less_induct)
  case less
  from tag obtain tag' where t: "tag = 60 # tag'" by (auto simp: br_marker_def)
  have m: "match_br (tag @ post) = Some (length tag)" using tag post by (rule match_br_marker)
  show ?case
  proof (cases pre)
    case Nil
    have "br_replace (tag @ post) = 10 # br_replace (drop (length tag) (tag @ post))"
      using m t by simp
    then show ?thesis using Nil by simp
  next
    case (Cons c cs)
    let ?s = "pre @ tag @ post"
    have s: "?s = c # (cs @ tag @ post)" using Cons by simp
    show ?thesis
    proof (cases "match_br ?s")
      case None
      from less [of cs] Cons obtain out where "br_replace (cs @ tag @ post) = out @ 10 # br_replace post"
        by auto
      with None s have "br_replace ?s = (c # out) @ 10 # br_replace post" by simp
      then show ?thesis by blast
    next
      case (Some n)
      from match_br_inner [OF Some] have n0: "0 < n" and inner: "60 \<notin> set (tl (take n ?s))"
        by auto
      have le: "n \<le> length pre"
      proof (rule ccontr)
        assume "\<not> n \<le> length pre"
        then have "take n ?s = pre @ 60 # take (n - length pre - 1) (tag' @ post)"
          using t by (cases "n - length pre") auto
        then have "60 \<in> set (tl (take n ?s))" using Cons by simp
        with inner show False by simp
      qed
      then have d: "drop n ?s = drop n pre @ tag @ post" by simp
      have "length (drop n pre) < length pre" using n0 Cons by simp
      from less [OF this] obtain out where
        "br_replace (drop n pre @ tag @ post) = out @ 10 # br_replace post" by auto
      with Some s d have "br_replace ?s = (10 # out) @ 10 # br_replace post" by simp
      then show ?thesis by blast
    qed
  qed
qed

lemma in_fence_0: "in_fence ls 0 = False"
  by (simp add: in_fence_def)

lemma in_fence_Suc: "in_fence (t # ts) (Suc i) = (if fence_line t then \<not> in_fence ts i else in_fence ts i)"
  by (simp add: in_fence_def)

lemma normalize_loop_eq:
  "normalize_loop ls f out =
     out @ map (\<lambda>i. if fence_line (ls ! i) \<or> (f \<noteq> in_fence ls i) then ls ! i
                     else br_replace (ls ! i)) [0..<length ls]"
proof (induction ls arbitrary: f out)
  case Nil show ?case by simp
next
  case (Cons t ts)
  show ?case
    by (simp only: normalize_loop.simps Cons.IH length_Cons map_upt_Suc in_fence_0 in_fence_Suc
        nth_Cons_0 nth_Cons_Suc) auto
qed

lemma normalizeMd_lines:
  "normalizeMd raw =
     join_nl (map (\<lambda>i. if fence_line (split_nl (crlf_to_lf raw) ! i) \<or>
                            in_fence (split_nl (crlf_to_lf raw)) i
                         then split_nl (crlf_to_lf raw) ! i
                         else br_replace (split_nl (crlf_to_lf raw) ! i))
                [0..<length (split_nl (crlf_to_lf raw))])"
  by (simp add: normalizeMd_def normalize_loop_eq)

lemma normalizeMd_no_cr: "13 \<notin> set (normalizeMd raw)"
proof
  assume a: "13 \<in> set (normalizeMd raw)"
  let ?ls = "split_nl (crlf_to_lf raw)"
  let ?g = "\<lambda>i. if fence_line (?ls ! i) \<or> in_fence ?ls i then ?ls ! i else br_replace (?ls ! i)"
  from a set_join_nl [of "map ?g [0..<length ?ls]"] normalizeMd_lines [of raw]
  obtain i where i: "i < length ?ls" and c: "13 \<in> set (?g i)" by auto
  have "set (?g i) \<subseteq> insert 10 (set (?ls ! i))"
    using set_br_replace [of "?ls ! i"] by auto
  with c have "13 \<in> set (?ls ! i)" by auto
  moreover have "set (?ls ! i) \<subseteq> set (crlf_to_lf raw)"
    using i by (intro set_split_nl) simp
  ultimately show False using crlf_no_cr [of raw] by auto
qed

lemma normalizeMd_plain:
  assumes "60 \<notin> set raw"
  shows "normalizeMd raw = crlf_to_lf raw"
proof -
  let ?ls = "split_nl (crlf_to_lf raw)"
  have "60 \<notin> set (crlf_to_lf raw)" using assms set_crlf [of raw] by auto
  then have "\<forall>i < length ?ls. 60 \<notin> set (?ls ! i)"
    using set_split_nl [of _ "crlf_to_lf raw"] by (metis nth_mem subsetD)
  then have "map (\<lambda>i. if fence_line (?ls ! i) \<or> in_fence ?ls i then ?ls ! i
                      else br_replace (?ls ! i)) [0..<length ?ls] = map (\<lambda>i. ?ls ! i) [0..<length ?ls]"
    by (intro map_cong) (auto simp: br_replace_id)
  then show ?thesis
    by (simp add: normalizeMd_lines map_nth join_split)
qed

lemma crlf_append_cr: "crlf_to_lf (a @ 13 # rest) = crlf_to_lf a @ crlf_to_lf (13 # rest)"
  by (induction a rule: crlf_to_lf.induct) auto

lemma crlf_Cons: "c \<noteq> 13 \<Longrightarrow> crlf_to_lf (c # cs) = c # crlf_to_lf cs"
  by (cases cs) auto

lemma crlf_append_lf:
  "a = [] \<or> last a \<noteq> 13 \<Longrightarrow> crlf_to_lf (a @ 10 # b) = crlf_to_lf a @ 10 # crlf_to_lf b"
  by (induction a rule: crlf_to_lf.induct) (auto simp: crlf_Cons split: if_splits)

lemma crlf_cases:
  "crlf_to_lf (a @ 13 # 10 # b) = crlf_to_lf a @ 10 # crlf_to_lf b"
  "b = [] \<or> hd b \<noteq> 10 \<Longrightarrow> crlf_to_lf (a @ 13 # b) = crlf_to_lf a @ 10 # crlf_to_lf b"
   apply (simp add: crlf_append_cr)
  apply (cases b)
   apply (simp_all add: crlf_append_cr)
  done

lemma br_marker_ex: "br_marker (js ''<BR/>'')"
  by (simp add: br_marker_def)

lemma normalizeMd_ex:
  "normalizeMd (js ''a<br>'' @ [13, 10] @ js ''```'' @ [13] @ js ''<br>\<newline>```\<newline>b<BR/> c'') =
     js ''a\<newline>\<newline>```\<newline><br>\<newline>```\<newline>b\<newline> c''"
  by (simp add: normalizeMd_def fence_line_def trimStart_def match_br_def is_space_def)

lemma match_br_tag:
  assumes "br_tag m" and "post = [] \<or> is_space (hd post)"
  shows "match_br (m @ post) = Some (length m)"
proof -
  from assms(1) obtain b c ws slp where m: "m = 60 # b # c # ws @ slp @ [62]"
    and b: "b = 98 \<or> b = 66" and c: "c = 114 \<or> c = 82" and ws: "\<forall>x \<in> set ws. is_space x"
    and slp: "slp = [] \<or> slp = [47]"
    unfolding br_tag_def by blast
  let ?rest = "ws @ slp @ 62 # post"
  have ne: "slp @ 62 # post \<noteq> [] \<and> \<not> is_space (hd (slp @ 62 # post))"
    using slp space_consts by auto
  have tw: "takeWhile is_space ?rest = ws"
    using ws ne by (intro takeWhile_all) auto
  have dw: "dropWhile is_space ?rest = slp @ 62 # post"
    using ws ne by (cases "slp @ 62 # post") (auto simp: dropWhile_append2)
  have "match_br (60 # b # c # ?rest) = Some (3 + length ws + length slp + 1)"
    using b c slp assms(2) unfolding match_br_def list.case tw dw Let_def
    by auto
  then show ?thesis by (simp add: m)
qed

lemma match_br_iff:
  "match_br s = Some n \<longleftrightarrow>
     (\<exists>m post. s = m @ post \<and> br_tag m \<and> n = length m \<and> (post = [] \<or> is_space (hd post)))"
proof
  assume "match_br s = Some n"
  from match_br_shape [OF this] obtain b c ws slp r3 where
    s: "s = 60 # b # c # ws @ slp @ 62 # r3" and n: "n = 4 + length ws + length slp"
    and o: "b = 98 \<or> b = 66" "c = 114 \<or> c = 82" "\<forall>x \<in> set ws. is_space x"
      "slp = [] \<or> slp = [47]" "r3 = [] \<or> is_space (hd r3)"
    by blast
  have "s = (60 # b # c # ws @ slp @ [62]) @ r3" using s by simp
  moreover have "br_tag (60 # b # c # ws @ slp @ [62])" using o unfolding br_tag_def by blast
  moreover have "n = length (60 # b # c # ws @ slp @ [62])" using n by simp
  ultimately show "\<exists>m post. s = m @ post \<and> br_tag m \<and> n = length m \<and> (post = [] \<or> is_space (hd post))"
    using o(5) by blast
next
  assume "\<exists>m post. s = m @ post \<and> br_tag m \<and> n = length m \<and> (post = [] \<or> is_space (hd post))"
  then show "match_br s = Some n" using match_br_tag by blast
qed

lemma match_br_none: "match_br s = None \<longleftrightarrow> \<not> standalone_br_at s"
proof -
  have "standalone_br_at s \<longleftrightarrow> (\<exists>n. match_br s = Some n)"
    unfolding match_br_iff standalone_br_at_def by blast
  then show ?thesis by auto
qed

lemma br_tag_ne: "br_tag m \<Longrightarrow> m \<noteq> []"
  by (auto simp: br_tag_def)

lemma br_replace_tag:
  assumes "br_tag m" and "post = [] \<or> is_space (hd post)"
  shows "br_replace (m @ post) = 10 # br_replace post"
proof -
  obtain c cs where e: "m @ post = c # cs" using br_tag_ne [OF assms(1)] by (cases m) auto
  have "match_br (c # cs) = Some (length m)" using match_br_tag [OF assms] e by simp
  then have "br_replace (c # cs) = 10 # br_replace (drop (length m) (c # cs))" by simp
  then show ?thesis using e by (metis append_eq_conv_conj)
qed

lemma br_replace_keep:
  assumes "\<not> standalone_br_at (c # cs)"
  shows "br_replace (c # cs) = c # br_replace cs"
  using assms match_br_none [of "c # cs"] by simp

lemma br_tag_intro:
  "(b = 98 \<or> b = 66) \<Longrightarrow> (c = 114 \<or> c = 82) \<Longrightarrow> \<forall>x \<in> set ws. is_space x \<Longrightarrow>
     slp = [] \<or> slp = [47] \<Longrightarrow> br_tag (60 # b # c # ws @ slp @ [62])"
  unfolding br_tag_def by blast

lemma br_marker_tag: "br_marker tag \<Longrightarrow> br_tag tag"
proof -
  assume "br_marker tag"
  then obtain b r mid where t: "tag = [60, b, r] @ mid @ [62]" and b: "b = 98 \<or> b = 66"
    and r: "r = 114 \<or> r = 82" and mid: "mid = [] \<or> mid = [47] \<or> mid = [32, 47]"
    by (auto simp: br_marker_def)
  from mid show ?thesis
  proof (elim disjE)
    assume "mid = []"
    then have "tag = 60 # b # r # [] @ [] @ [62]" using t by simp
    then show ?thesis using br_tag_intro [OF b r, of "[]" "[]"] by simp
  next
    assume "mid = [47]"
    then have "tag = 60 # b # r # [] @ [47] @ [62]" using t by simp
    then show ?thesis using br_tag_intro [OF b r, of "[]" "[47]"] by simp
  next
    assume "mid = [32, 47]"
    then have "tag = 60 # b # r # [32] @ [47] @ [62]" using t by simp
    then show ?thesis using br_tag_intro [OF b r, of "[32]" "[47]"] space_consts(3) by simp
  qed
qed

lemma fence_line_iff:
  "fence_line t \<longleftrightarrow> (\<exists>ind rest. t = ind @ [96, 96, 96] @ rest \<and> (\<forall>c \<in> set ind. is_space c))"
proof
  assume f: "fence_line t"
  let ?d = "dropWhile is_space t"
  from f have "take 3 ?d = [96, 96, 96]" by (simp add: fence_line_def trimStart_def)
  then have "?d = [96, 96, 96] @ drop 3 ?d" by (metis append_take_drop_id)
  then have "t = takeWhile is_space t @ [96, 96, 96] @ drop 3 ?d"
    by (metis takeWhile_dropWhile_id)
  moreover have "\<forall>c \<in> set (takeWhile is_space t). is_space c" by (metis set_takeWhileD)
  ultimately show "\<exists>ind rest. t = ind @ [96, 96, 96] @ rest \<and> (\<forall>c \<in> set ind. is_space c)"
    by blast
next
  assume "\<exists>ind rest. t = ind @ [96, 96, 96] @ rest \<and> (\<forall>c \<in> set ind. is_space c)"
  then obtain ind rest where t: "t = ind @ [96, 96, 96] @ rest" and i: "\<forall>c \<in> set ind. is_space c"
    by blast
  have "\<not> is_space 96" by (simp add: is_space_def)
  then have "dropWhile is_space t = [96, 96, 96] @ rest"
    unfolding t using i by (simp add: dropWhile_append2)
  then show "fence_line t" by (simp add: fence_line_def trimStart_def)
qed

lemma split_nl_line: "10 \<notin> set l \<Longrightarrow> split_nl l = [l]"
  by (induction l) auto

lemma split_nl_append: "10 \<notin> set l \<Longrightarrow> split_nl (l @ 10 # rest) = l # split_nl rest"
  by (induction l) auto

lemma in_fence_step:
  "in_fence ls 0 = False"
  "i < length ls \<Longrightarrow> in_fence ls (Suc i) = (if fence_line (ls ! i) then \<not> in_fence ls i else in_fence ls i)"
  by (simp_all add: in_fence_def take_Suc_conv_app_nth)

lemma normalizeMd_more_examples:
  "normalizeMd (js ''x<br>y'') = js ''x<br>y''"
  "normalizeMd (js ''  ```\<newline><br>\<newline>  ```\<newline><br>'') = js ''  ```\<newline><br>\<newline>  ```\<newline>\<newline>''"
  "match_br (js ''<br>y'') = None"
  "fence_line (js ''  ```js'')"
  by (simp_all add: normalizeMd_def fence_line_def trimStart_def match_br_def is_space_def)

text \<open>
  C2. For every input, \<open>normalizeMd\<close> works line by line on the text with its line
  endings unified: \<open>\r\n\<close> and \<open>\r\<close> have become \<open>\n\<close>, no CARRIAGE RETURN is left, and
  that is the only change to a text without \<open><\<close>. A line is a fence delimiter exactly
  when three backticks follow its leading white space; the state is outside a fence at
  the first line and is toggled by every fence delimiter. A fence delimiter line, and a
  line inside a fenced region, is passed through as it is; any other line has its break
  markers replaced, from left to right: where a break tag (\<open><br\<close>, any white space, an
  optional slash, \<open>>\<close>, in any case of the letters, so \<open><br>\<close>, \<open><br/>\<close> and \<open><br />\<close>
  among them) is followed by white space or by the end of the line, a line break takes
  its place and the replacement goes on after it; every other character, also the \<open><\<close>
  of a tag that something else follows, is kept.
\<close>

theorem normalizeMd_spec:
  "normalizeMd raw =
     join_nl (map (\<lambda>i. if fence_line (split_nl (crlf_to_lf raw) ! i) \<or>
                            in_fence (split_nl (crlf_to_lf raw)) i
                         then split_nl (crlf_to_lf raw) ! i
                         else br_replace (split_nl (crlf_to_lf raw) ! i))
                [0..<length (split_nl (crlf_to_lf raw))]) \<and>
   13 \<notin> set (normalizeMd raw) \<and>
   (60 \<notin> set raw \<longrightarrow> normalizeMd raw = crlf_to_lf raw) \<and>
   crlf_to_lf (a @ 13 # 10 # b) = crlf_to_lf a @ 10 # crlf_to_lf b \<and>
   (b = [] \<or> hd b \<noteq> 10 \<longrightarrow> crlf_to_lf (a @ 13 # b) = crlf_to_lf a @ 10 # crlf_to_lf b) \<and>
   (a = [] \<or> last a \<noteq> 13 \<longrightarrow> crlf_to_lf (a @ 10 # b) = crlf_to_lf a @ 10 # crlf_to_lf b) \<and>
   (13 \<notin> set a \<longrightarrow> crlf_to_lf a = a) \<and>
   (br_marker tag \<and> (post = [] \<or> is_space (hd post)) \<longrightarrow>
      (\<exists>out. br_replace (pre @ tag @ post) = out @ 10 # br_replace post)) \<and>
   (fence_line t \<longleftrightarrow>
      (\<exists>ind rest. t = ind @ [96, 96, 96] @ rest \<and> (\<forall>c \<in> set ind. is_space c))) \<and>
   \<not> in_fence ls 0 \<and>
   (i < length ls \<longrightarrow>
      in_fence ls (Suc i) = (if fence_line (ls ! i) then \<not> in_fence ls i else in_fence ls i)) \<and>
   (br_marker tag \<longrightarrow> br_tag tag) \<and>
   (br_tag m \<and> (post = [] \<or> is_space (hd post)) \<longrightarrow>
      br_replace (m @ post) = 10 # br_replace post) \<and>
   (\<not> standalone_br_at (c # cs) \<longrightarrow> br_replace (c # cs) = c # br_replace cs) \<and>
   br_replace [] = [] \<and>
   (10 \<notin> set l \<longrightarrow> split_nl l = [l] \<and> split_nl (l @ 10 # below) = l # split_nl below) \<and>
   join_nl [] = [] \<and> join_nl [l] = l \<and> join_nl (l # k # ks) = l @ 10 # join_nl (k # ks)"
proof (intro conjI impI)
  show "normalizeMd raw =
     join_nl (map (\<lambda>i. if fence_line (split_nl (crlf_to_lf raw) ! i) \<or>
                            in_fence (split_nl (crlf_to_lf raw)) i
                         then split_nl (crlf_to_lf raw) ! i
                         else br_replace (split_nl (crlf_to_lf raw) ! i))
                [0..<length (split_nl (crlf_to_lf raw))])"
    by (rule normalizeMd_lines)
  show "13 \<notin> set (normalizeMd raw)"
    by (rule normalizeMd_no_cr)
  show "normalizeMd raw = crlf_to_lf raw" if "60 \<notin> set raw"
    using that by (rule normalizeMd_plain)
  show "crlf_to_lf (a @ 13 # 10 # b) = crlf_to_lf a @ 10 # crlf_to_lf b"
    by (rule crlf_cases(1))
  show "crlf_to_lf (a @ 13 # b) = crlf_to_lf a @ 10 # crlf_to_lf b" if "b = [] \<or> hd b \<noteq> 10"
    using that by (rule crlf_cases(2))
  show "crlf_to_lf (a @ 10 # b) = crlf_to_lf a @ 10 # crlf_to_lf b" if "a = [] \<or> last a \<noteq> 13"
    using that by (rule crlf_append_lf)
  show "crlf_to_lf a = a" if "13 \<notin> set a"
    using that by (rule crlf_id)
  show "\<exists>out. br_replace (pre @ tag @ post) = out @ 10 # br_replace post"
    if "br_marker tag \<and> (post = [] \<or> is_space (hd post))"
    using that marker_replaced [of tag post pre] by blast
  show "fence_line t \<longleftrightarrow>
      (\<exists>ind rest. t = ind @ [96, 96, 96] @ rest \<and> (\<forall>c \<in> set ind. is_space c))"
    by (rule fence_line_iff)
  show "\<not> in_fence ls 0"
    by (simp add: in_fence_step(1))
  show "in_fence ls (Suc i) = (if fence_line (ls ! i) then \<not> in_fence ls i else in_fence ls i)"
    if "i < length ls"
    using that by (rule in_fence_step(2))
  show "br_tag tag" if "br_marker tag"
    using that by (rule br_marker_tag)
  show "br_replace (m @ post) = 10 # br_replace post"
    if "br_tag m \<and> (post = [] \<or> is_space (hd post))"
    using br_replace_tag [of m post] that by blast
  show "br_replace (c # cs) = c # br_replace cs" if "\<not> standalone_br_at (c # cs)"
    using that by (rule br_replace_keep)
  show "br_replace [] = []"
    by simp
  show "split_nl l = [l]" if "10 \<notin> set l"
    using that by (rule split_nl_line)
  show "split_nl (l @ 10 # below) = l # split_nl below" if "10 \<notin> set l"
    using that by (rule split_nl_append)
  show "join_nl [] = []" "join_nl [l] = l" "join_nl (l # k # ks) = l @ 10 # join_nl (k # ks)"
    by simp_all
qed

theorem normalizeMd_spec_witness:
  "br_marker (js ''<BR/>'') \<and> is_space (hd (js '' c'')) \<and>
   (\<exists>out. br_replace (js ''a<br>b '' @ js ''<BR/>'' @ js '' c'') = out @ 10 # br_replace (js '' c'')) \<and>
   13 \<notin> set (normalizeMd [97, 13, 10, 98, 13, 99]) \<and>
   normalizeMd (js ''a<br>'' @ [13, 10] @ js ''```'' @ [13] @ js ''<br>\<newline>```\<newline>b<BR/> c'') =
     js ''a\<newline>\<newline>```\<newline><br>\<newline>```\<newline>b\<newline> c'' \<and>
   \<not> standalone_br_at (js ''<br>y'') \<and>
   br_replace (js ''<br>y'') = 60 # br_replace (js ''br>y'') \<and>
   br_replace (js ''<BR/>'' @ js '' c'') = 10 # br_replace (js '' c'') \<and>
   normalizeMd (js ''x<br>y'') = js ''x<br>y'' \<and>
   fence_line (js ''  ```js'') \<and>
   normalizeMd (js ''  ```\<newline><br>\<newline>  ```\<newline><br>'') =
     js ''  ```\<newline><br>\<newline>  ```\<newline>\<newline>''"
proof -
  have s: "is_space (hd (js '' c''))"
    by (simp add: is_space_def)
  have n: "\<not> standalone_br_at (js ''<br>y'')"
    using normalizeMd_more_examples(3) match_br_none by blast
  note t = normalizeMd_spec [of "[97, 13, 10, 98, 13, 99]" "[]" "[]" "js ''<BR/>''" "js '' c''"
      "js ''a<br>b ''" "[]" "[]" 0 "js ''<BR/>''" 60 "js ''br>y''" "[]" "[]" "[]" "[]"]
  from t br_marker_ex s
  have 1: "(\<exists>out. br_replace (js ''a<br>b '' @ js ''<BR/>'' @ js '' c'') = out @ 10 # br_replace (js '' c'')) \<and>
    13 \<notin> set (normalizeMd [97, 13, 10, 98, 13, 99])"
    by blast
  have e: "js ''<br>y'' = 60 # js ''br>y''"
    by simp
  from t n e have 2: "br_replace (js ''<br>y'') = 60 # br_replace (js ''br>y'')"
    by metis
  from t br_marker_ex s have 3: "br_replace (js ''<BR/>'' @ js '' c'') = 10 # br_replace (js '' c'')"
    by blast
  from 1 2 3 br_marker_ex s n normalizeMd_ex normalizeMd_more_examples(1,2,4) show ?thesis
    by blast
qed

section \<open>Properties of the title\<close>


























section \<open>Properties of the document list\<close>

lemma mset_insert_sorted: "mset (insert_sorted cmp x ys) = add_mset x (mset ys)"
  by (induction ys) auto

lemma mset_array_sort_aux:
  "mset (foldl (\<lambda>acc x. insert_sorted cmp x acc) acc xs) = mset acc + mset xs"
  by (induction xs arbitrary: acc) (auto simp: mset_insert_sorted)

lemma mset_array_sort: "mset (array_sort cmp xs) = mset xs"
  by (simp add: array_sort_def mset_array_sort_aux)

lemma set_insert_sorted: "set (insert_sorted cmp x ys) = insert x (set ys)"
  by (induction ys) auto

lemma sorted_insert_sorted:
  assumes total: "\<And>a b. P a \<Longrightarrow> P b \<Longrightarrow> le a b \<or> le b a"
    and trans: "\<And>a b c. P a \<Longrightarrow> P b \<Longrightarrow> P c \<Longrightarrow> le a b \<Longrightarrow> le b c \<Longrightarrow> le a c"
    and neg: "\<And>a b. P a \<Longrightarrow> P b \<Longrightarrow> negative (cmp a b) = (\<not> le b a)"
    and x: "P x" and ys: "\<forall>y \<in> set ys. P y" and s: "sorted_wrt le ys"
  shows "sorted_wrt le (insert_sorted cmp x ys)"
  using ys s
proof (induction ys)
  case Nil show ?case by simp
next
  case (Cons y ys)
  show ?case
  proof (cases "negative (cmp x y)")
    case True
    then have xy: "le x y" using neg [of x y] total [of x y] x Cons.prems(1) by auto
    have "le x z" if "z \<in> set ys" for z
      using that xy Cons.prems trans [of x y z] x by auto
    with True xy Cons.prems(2) show ?thesis by auto
  next
    case False
    then have "le y x" using neg [of x y] x Cons.prems(1) by auto
    with False Cons show ?thesis by (auto simp: set_insert_sorted)
  qed
qed

lemma sorted_array_sort_aux:
  assumes total: "\<And>a b. P a \<Longrightarrow> P b \<Longrightarrow> le a b \<or> le b a"
    and trans: "\<And>a b c. P a \<Longrightarrow> P b \<Longrightarrow> P c \<Longrightarrow> le a b \<Longrightarrow> le b c \<Longrightarrow> le a c"
    and neg: "\<And>a b. P a \<Longrightarrow> P b \<Longrightarrow> negative (cmp a b) = (\<not> le b a)"
  shows "\<forall>y \<in> set acc. P y \<Longrightarrow> \<forall>x \<in> set xs. P x \<Longrightarrow> sorted_wrt le acc \<Longrightarrow>
    sorted_wrt le (foldl (\<lambda>acc x. insert_sorted cmp x acc) acc xs)"
proof (induction xs arbitrary: acc)
  case Nil then show ?case by simp
next
  case (Cons x xs)
  have "sorted_wrt le (insert_sorted cmp x acc)"
    using Cons.prems by (intro sorted_insert_sorted [where P = P, OF total trans neg]) auto
  moreover have "\<forall>y \<in> set (insert_sorted cmp x acc). P y"
    using Cons.prems by (simp add: set_insert_sorted)
  ultimately show ?case using Cons.IH Cons.prems(2) by simp
qed

lemma num_less_total: "a \<noteq> NaN \<Longrightarrow> b \<noteq> NaN \<Longrightarrow> num_less a b \<or> a = b \<or> num_less b a"
  by (cases a; cases b) auto

lemma num_less_trans: "num_less a b \<Longrightarrow> num_less b c \<Longrightarrow> num_less a c"
  by (cases a; cases b; cases c) auto

lemma num_less_irrefl: "\<not> num_less a a"
  by (cases a) auto

lemma num_less_asym: "num_less a b \<Longrightarrow> \<not> num_less b a"
  by (cases a; cases b) auto

lemma negative_minus: "a \<noteq> NaN \<Longrightarrow> b \<noteq> NaN \<Longrightarrow> a \<noteq> b \<Longrightarrow> negative (js_minus a b) = num_less a b"
  by (cases a; cases b) auto

lemma item_le_total:
  assumes "consistent_compare lc" "order a \<noteq> NaN" "order b \<noteq> NaN"
  shows "item_le lc a b \<or> item_le lc b a"
proof -
  have c: "(lc y x < 0) = (0 < lc x y)" for x y
    using assms(1) by (simp add: consistent_compare_def)
  have "lc x y \<le> 0 \<or> lc y x \<le> 0" for x y
    using c [of x y] by linarith
  then show ?thesis
    using num_less_total [OF assms(2,3)] by (auto simp: item_le_def)
qed

lemma item_le_trans:
  assumes "consistent_compare lc" "item_le lc a b" "item_le lc b c"
  shows "item_le lc a c"
proof -
  have t: "lc x y \<le> 0 \<Longrightarrow> lc y z \<le> 0 \<Longrightarrow> lc x z \<le> 0" for x y z
    using assms(1) unfolding consistent_compare_def by blast
  show ?thesis
    using assms(2,3) t [of "item_title a" "item_title b" "item_title c"]
    by (auto simp: item_le_def dest: num_less_trans)
qed

lemma compare_items_neg:
  assumes "consistent_compare lc" "order a \<noteq> NaN" "order b \<noteq> NaN"
  shows "negative (compare_items lc a b) = (\<not> item_le lc b a)"
proof (cases "order a = order b")
  case True
  have c: "(lc x y < 0) = (0 < lc y x)" for x y
    using assms(1) by (simp add: consistent_compare_def)
  have "(lc x y < 0) = (\<not> lc y x \<le> 0)" for x y
    using c [of x y] by linarith
  with True assms(2) show ?thesis
    by (simp add: compare_items_def strict_eq_def item_le_def num_less_irrefl)
next
  case False
  then have "negative (compare_items lc a b) = num_less (order a) (order b)"
    using assms(2,3) by (simp add: compare_items_def strict_eq_def negative_minus)
  also have "\<dots> = (\<not> item_le lc b a)"
    using False num_less_total [OF assms(2,3)] num_less_asym [of "order a" "order b"]
    by (auto simp: item_le_def)
  finally show ?thesis .
qed

lemma order_item_of_key: "order (item_of_key k) \<noteq> NaN"
  by (simp add: item_of_key_def Let_def split: option.splits)

lemma sorted_sorted_items:
  assumes "consistent_compare lc"
  shows "sorted_wrt (item_le lc) (sorted_items lc docKeys lang)"
  unfolding sorted_items_def array_sort_def
proof (rule sorted_array_sort_aux [where P = "\<lambda>i. order i \<noteq> NaN"])
  show "item_le lc a b \<or> item_le lc b a" if "order a \<noteq> NaN" "order b \<noteq> NaN" for a b
    using assms that by (rule item_le_total)
  show "item_le lc a c" if "item_le lc a b" "item_le lc b c" for a b c
    using assms that by (rule item_le_trans)
  show "negative (compare_items lc a b) = (\<not> item_le lc b a)"
    if "order a \<noteq> NaN" "order b \<noteq> NaN" for a b
    using assms that by (rule compare_items_neg)
qed (auto simp: order_item_of_key)

lemma mset_sorted_items:
  "mset (sorted_items lc docKeys lang) =
     mset (map item_of_key (filter (\<lambda>k. startsWith k (language_prefix lang)) docKeys))"
  by (simp add: sorted_items_def mset_array_sort)

lemma not_digit_sep: "\<not> is_digit 95" "\<not> is_digit 45"
  by (simp_all add: is_digit_def)

lemma order_match_with_iff:
  "order_match_with n base = Some (d, rem) \<longleftrightarrow>
     (\<exists>sep. base = d @ sep # rem \<and> length d = n \<and> (\<forall>c \<in> set d. is_digit c) \<and>
            (sep = 95 \<or> sep = 45) \<and> text_to_end rem)"
  (is "?L \<longleftrightarrow> ?R")
proof
  assume L: ?L
  then have n: "n < length base" and d: "d = take n base" and r: "rem = drop (Suc n) base"
    and dg: "list_all is_digit (take n base)" and sp: "base ! n = 95 \<or> base ! n = 45"
    and te: "text_to_end (drop (Suc n) base)"
    by (auto simp: order_match_with_def split: if_splits)
  have "base = d @ base ! n # rem" using n d r by (simp add: id_take_nth_drop)
  moreover have "length d = n" using n d by simp
  ultimately show ?R using d r dg sp te by (auto simp: list_all_iff)
next
  assume ?R
  then obtain sep where b: "base = d @ sep # rem" and l: "length d = n"
    and dg: "\<forall>c \<in> set d. is_digit c" and sp: "sep = 95 \<or> sep = 45" and te: "text_to_end rem"
    by blast
  from b l have "n < length base" "take n base = d" "base ! n = sep" "drop (Suc n) base = rem"
    by auto
  with dg sp te show ?L by (simp add: order_match_with_def list_all_iff)
qed

lemma order_match_iff:
  "order_match base = Some (d, rem) \<longleftrightarrow>
     (\<exists>sep. base = d @ sep # rem \<and> (length d = 2 \<or> length d = 3) \<and> (\<forall>c \<in> set d. is_digit c) \<and>
            (sep = 95 \<or> sep = 45) \<and> text_to_end rem)"
  (is "?L \<longleftrightarrow> ?R")
proof
  assume ?L
  then have "order_match_with 3 base = Some (d, rem) \<or> order_match_with 2 base = Some (d, rem)"
    by (auto simp: order_match_def split: option.splits)
  then show ?R unfolding order_match_with_iff by blast
next
  assume ?R
  then obtain sep where b: "base = d @ sep # rem" and l: "length d = 2 \<or> length d = 3"
    and dg: "\<forall>c \<in> set d. is_digit c" and sp: "sep = 95 \<or> sep = 45" and te: "text_to_end rem"
    by blast
  from l show ?L
  proof
    assume 3: "length d = 3"
    then have "order_match_with 3 base = Some (d, rem)"
      unfolding order_match_with_iff using b dg sp te by blast
    then show ?L by (simp add: order_match_def)
  next
    assume 2: "length d = 2"
    then have w2: "order_match_with 2 base = Some (d, rem)"
      unfolding order_match_with_iff using b dg sp te by blast
    have "take 3 base = d @ [sep]" using b 2 by simp
    then have "\<not> list_all is_digit (take 3 base)"
      using sp not_digit_sep by auto
    then have "order_match_with 3 base = None"
      by (simp add: order_match_with_def)
    with w2 show ?L by (simp add: order_match_def)
  qed
qed

lemma parseInt10_digits:
  "parseInt10 [a, b] = 10 * (int a - 48) + (int b - 48)"
  "parseInt10 [a, b, c] = 100 * (int a - 48) + 10 * (int b - 48) + (int c - 48)"
  by (simp_all add: parseInt10_def)

lemma item_index:
  "item_of_key (js ''../content/en/index.md'') =
     \<lparr>fileKey = js ''../content/en/index.md'', slug = js ''index'', displaySlug = js ''index'',
      item_title = js ''Index'', order = NegInfinity\<rparr>"
  by (simp add: item_of_key_def Let_def filename_of_def strip_md_def order_match_def
      order_match_with_def is_digit_def fallbackTitle_def is_word_def ascii_upper_def)

lemma item_intro:
  "item_of_key (js ''../content/en/001_intro.md'') =
     \<lparr>fileKey = js ''../content/en/001_intro.md'', slug = js ''001_intro'',
      displaySlug = js ''intro'', item_title = js ''Intro'', order = Finite 1\<rparr>"
  by (simp add: item_of_key_def Let_def filename_of_def strip_md_def order_match_def
      order_match_with_def is_digit_def text_to_end_def is_line_terminator_def
      parseInt10_def fallbackTitle_def is_word_def ascii_upper_def)

lemma item_advanced:
  "item_of_key (js ''../content/en/010-advanced.md'') =
     \<lparr>fileKey = js ''../content/en/010-advanced.md'', slug = js ''010-advanced'',
      displaySlug = js ''advanced'', item_title = js ''Advanced'', order = Finite 10\<rparr>"
  by (simp add: item_of_key_def Let_def filename_of_def strip_md_def order_match_def
      order_match_with_def is_digit_def text_to_end_def is_line_terminator_def
      parseInt10_def fallbackTitle_def is_word_def ascii_upper_def)

lemma item_readme:
  "item_of_key (js ''../content/en/readme.md'') =
     \<lparr>fileKey = js ''../content/en/readme.md'', slug = js ''readme'',
      displaySlug = js ''readme'', item_title = js ''Readme'', order = PosInfinity\<rparr>"
  by (simp add: item_of_key_def Let_def filename_of_def strip_md_def order_match_def
      order_match_with_def is_digit_def fallbackTitle_def is_word_def ascii_upper_def)

lemma en_keys:
  "startsWith (js ''../content/en/index.md'') (language_prefix (js ''en''))"
  "startsWith (js ''../content/en/001_intro.md'') (language_prefix (js ''en''))"
  "startsWith (js ''../content/en/010-advanced.md'') (language_prefix (js ''en''))"
  "startsWith (js ''../content/en/readme.md'') (language_prefix (js ''en''))"
  "\<not> startsWith (js ''../content/ko/index.md'') (language_prefix (js ''en''))"
  by (simp_all add: startsWith_def language_prefix_def)

lemma sorted_items_example:
  "map displaySlug (sorted_items lc
      [js ''../content/en/index.md'', js ''../content/en/001_intro.md'',
       js ''../content/en/010-advanced.md'', js ''../content/en/readme.md''] (js ''en'')) =
     [js ''index'', js ''intro'', js ''advanced'', js ''readme'']"
  unfolding sorted_items_def array_sort_def
  by (simp only: en_keys filter.simps if_True list.map item_index item_intro item_advanced
      item_readme foldl.simps)
    (simp add: compare_items_def strict_eq_def)

lemma sorted_items_example2:
  "map displaySlug (sorted_items lc
      [js ''../content/en/readme.md'', js ''../content/ko/index.md'',
       js ''../content/en/010-advanced.md'', js ''../content/en/001_intro.md'',
       js ''../content/en/index.md''] (js ''en'')) =
     [js ''index'', js ''intro'', js ''advanced'', js ''readme'']"
  unfolding sorted_items_def array_sort_def
  by (simp only: en_keys filter.simps if_True if_False list.map item_index item_intro item_advanced
      item_readme foldl.simps)
    (simp add: compare_items_def strict_eq_def)

lemma consistent_code_unit: "consistent_compare code_unit_compare"
  unfolding consistent_compare_def code_unit_compare_def
  by (auto split: if_splits)

lemma stem_of_key:
  assumes "47 \<notin> set name"
  shows "strip_md (filename_of (dir @ 47 # name @ js ''.md'')) = name"
proof -
  have "47 \<notin> set (rev (js ''.md'') @ rev name)" using assms by simp
  then have "takeWhile (\<lambda>c. c \<noteq> 47) ((rev (js ''.md'') @ rev name) @ 47 # rev dir) =
      rev (js ''.md'') @ rev name"
    by (intro takeWhile_all) auto
  then have "filename_of (dir @ 47 # name @ js ''.md'') = name @ js ''.md''"
    by (simp add: filename_of_def)
  then show ?thesis by (simp add: strip_md_def)
qed

lemma item_of_key_cases:
  "order_match (strip_md (filename_of k)) = Some (d, rem) \<Longrightarrow>
     order (item_of_key k) = Finite (parseInt10 d) \<and> displaySlug (item_of_key k) = rem"
  "order_match (strip_md (filename_of k)) = None \<Longrightarrow> strip_md (filename_of k) = js ''index'' \<Longrightarrow>
     order (item_of_key k) = NegInfinity \<and> displaySlug (item_of_key k) = js ''index''"
  "order_match (strip_md (filename_of k)) = None \<Longrightarrow> strip_md (filename_of k) \<noteq> js ''index'' \<Longrightarrow>
     order (item_of_key k) = PosInfinity \<and> displaySlug (item_of_key k) = strip_md (filename_of k)"
  "item_title (item_of_key k) = fallbackTitle (displaySlug (item_of_key k))"
  "fileKey (item_of_key k) = k"
  by (simp_all add: item_of_key_def Let_def split: option.splits)

text \<open>
  C1. For every language, the list of documents is made from the keys under the
  language's namespace. The stem of a key is its file name without \<open>.md\<close>. If the stem
  is two or three ASCII digits, then \<open>_\<close> or \<open>-\<close>, then a remainder (not empty, and, as
  the pattern's \<open>.+\<close> up to \<open>$\<close>, without line terminator), \<open>order\<close> is the number the
  digits write in base 10 and \<open>displaySlug\<close> the remainder; else if the stem is \<open>index\<close>,
  \<open>order\<close> is negative infinity and \<open>displaySlug\<close> is \<open>index\<close>; else \<open>order\<close> is positive
  infinity and \<open>displaySlug\<close> the stem. The list holds these entries, each once, sorted
  ascending by \<open>order\<close>, ties by the locale comparison of the titles. For the files
  \<open>index.md\<close>, \<open>001_intro.md\<close>, \<open>010-advanced.md\<close>, \<open>readme.md\<close> the order is \<open>index\<close>,
  \<open>intro\<close>, \<open>advanced\<close>, \<open>readme\<close>, whatever the locale comparison.
\<close>

theorem sorted_items_spec:
  "(47 \<notin> set name \<longrightarrow> strip_md (filename_of (dir @ 47 # name @ js ''.md'')) = name) \<and>
   (order_match (strip_md (filename_of k)) = Some (d, rem) \<longleftrightarrow>
      (\<exists>sep. strip_md (filename_of k) = d @ sep # rem \<and> (length d = 2 \<or> length d = 3) \<and>
             (\<forall>c \<in> set d. is_digit c) \<and> (sep = 95 \<or> sep = 45) \<and> text_to_end rem)) \<and>
   (order_match (strip_md (filename_of k)) = Some (d, rem) \<longrightarrow>
      order (item_of_key k) = Finite (parseInt10 d) \<and> displaySlug (item_of_key k) = rem) \<and>
   (order_match (strip_md (filename_of k)) = None \<and> strip_md (filename_of k) = js ''index'' \<longrightarrow>
      order (item_of_key k) = NegInfinity \<and> displaySlug (item_of_key k) = js ''index'') \<and>
   (order_match (strip_md (filename_of k)) = None \<and> strip_md (filename_of k) \<noteq> js ''index'' \<longrightarrow>
      order (item_of_key k) = PosInfinity \<and>
      displaySlug (item_of_key k) = strip_md (filename_of k)) \<and>
   item_title (item_of_key k) = fallbackTitle (displaySlug (item_of_key k)) \<and>
   parseInt10 [a, b] = 10 * (int a - 48) + (int b - 48) \<and>
   parseInt10 [a, b, c] = 100 * (int a - 48) + 10 * (int b - 48) + (int c - 48) \<and>
   mset (sorted_items localeCompare docKeys lang) =
     mset (map item_of_key (filter (\<lambda>k. startsWith k (language_prefix lang)) docKeys)) \<and>
   (consistent_compare localeCompare \<longrightarrow>
      sorted_wrt (item_le localeCompare) (sorted_items localeCompare docKeys lang)) \<and>
   map displaySlug (sorted_items localeCompare
      [js ''../content/en/index.md'', js ''../content/en/001_intro.md'',
       js ''../content/en/010-advanced.md'', js ''../content/en/readme.md''] (js ''en'')) =
     [js ''index'', js ''intro'', js ''advanced'', js ''readme'']"
proof (intro conjI impI)
  show "strip_md (filename_of (dir @ 47 # name @ js ''.md'')) = name" if "47 \<notin> set name"
    using that by (rule stem_of_key)
  show "order_match (strip_md (filename_of k)) = Some (d, rem) \<longleftrightarrow>
      (\<exists>sep. strip_md (filename_of k) = d @ sep # rem \<and> (length d = 2 \<or> length d = 3) \<and>
             (\<forall>c \<in> set d. is_digit c) \<and> (sep = 95 \<or> sep = 45) \<and> text_to_end rem)"
    by (rule order_match_iff)
  show "order (item_of_key k) = Finite (parseInt10 d)" "displaySlug (item_of_key k) = rem"
    if "order_match (strip_md (filename_of k)) = Some (d, rem)"
    using item_of_key_cases(1) [OF that] by simp_all
  show "order (item_of_key k) = NegInfinity"
    if "order_match (strip_md (filename_of k)) = None \<and> strip_md (filename_of k) = js ''index''"
    using item_of_key_cases(2) [OF conjunct1 [OF that] conjunct2 [OF that]] by (rule conjunct1)
  show "displaySlug (item_of_key k) = js ''index''"
    if "order_match (strip_md (filename_of k)) = None \<and> strip_md (filename_of k) = js ''index''"
    using item_of_key_cases(2) [OF conjunct1 [OF that] conjunct2 [OF that]] by (rule conjunct2)
  show "order (item_of_key k) = PosInfinity"
    if "order_match (strip_md (filename_of k)) = None \<and> strip_md (filename_of k) \<noteq> js ''index''"
    using item_of_key_cases(3) [OF conjunct1 [OF that] conjunct2 [OF that]] by (rule conjunct1)
  show "displaySlug (item_of_key k) = strip_md (filename_of k)"
    if "order_match (strip_md (filename_of k)) = None \<and> strip_md (filename_of k) \<noteq> js ''index''"
    using item_of_key_cases(3) [OF conjunct1 [OF that] conjunct2 [OF that]] by (rule conjunct2)
  show "item_title (item_of_key k) = fallbackTitle (displaySlug (item_of_key k))"
    by (rule item_of_key_cases(4))
  show "parseInt10 [a, b] = 10 * (int a - 48) + (int b - 48)"
    by (rule parseInt10_digits(1))
  show "parseInt10 [a, b, c] = 100 * (int a - 48) + 10 * (int b - 48) + (int c - 48)"
    by (rule parseInt10_digits(2))
  show "mset (sorted_items localeCompare docKeys lang) =
     mset (map item_of_key (filter (\<lambda>k. startsWith k (language_prefix lang)) docKeys))"
    by (rule mset_sorted_items)
  show "sorted_wrt (item_le localeCompare) (sorted_items localeCompare docKeys lang)"
    if "consistent_compare localeCompare"
    using that by (rule sorted_sorted_items)
  show "map displaySlug (sorted_items localeCompare
      [js ''../content/en/index.md'', js ''../content/en/001_intro.md'',
       js ''../content/en/010-advanced.md'', js ''../content/en/readme.md''] (js ''en'')) =
     [js ''index'', js ''intro'', js ''advanced'', js ''readme'']"
    by (rule sorted_items_example)
qed

theorem sorted_items_spec_witness:
  "consistent_compare code_unit_compare \<and>
   order_match (strip_md (filename_of (js ''../content/en/010-advanced.md''))) =
     Some (js ''010'', js ''advanced'') \<and>
   order (item_of_key (js ''../content/en/010-advanced.md'')) = Finite 10 \<and>
   sorted_wrt (item_le code_unit_compare)
     (sorted_items code_unit_compare
        [js ''../content/en/readme.md'', js ''../content/ko/index.md'',
         js ''../content/en/010-advanced.md'', js ''../content/en/001_intro.md'',
         js ''../content/en/index.md''] (js ''en'')) \<and>
   map displaySlug (sorted_items code_unit_compare
        [js ''../content/en/readme.md'', js ''../content/ko/index.md'',
         js ''../content/en/010-advanced.md'', js ''../content/en/001_intro.md'',
         js ''../content/en/index.md''] (js ''en'')) =
     [js ''index'', js ''intro'', js ''advanced'', js ''readme'']"
proof -
  have m: "order_match (strip_md (filename_of (js ''../content/en/010-advanced.md''))) =
     Some (js ''010'', js ''advanced'')"
    by (simp add: filename_of_def strip_md_def order_match_def order_match_with_def
        is_digit_def text_to_end_def is_line_terminator_def)
  have p: "parseInt10 (js ''010'') = 10"
    by (simp add: parseInt10_def)
  note t = sorted_items_spec [of "[]" "[]" "js ''../content/en/010-advanced.md''" "js ''010''"
      "js ''advanced''" 0 0 0 code_unit_compare
      "[js ''../content/en/readme.md'', js ''../content/ko/index.md'',
        js ''../content/en/010-advanced.md'', js ''../content/en/001_intro.md'',
        js ''../content/en/index.md'']" "js ''en''"]
  from t m p have "order (item_of_key (js ''../content/en/010-advanced.md'')) = Finite 10"
    by simp
  moreover from t consistent_code_unit have "sorted_wrt (item_le code_unit_compare)
     (sorted_items code_unit_compare
        [js ''../content/en/readme.md'', js ''../content/ko/index.md'',
         js ''../content/en/010-advanced.md'', js ''../content/en/001_intro.md'',
         js ''../content/en/index.md''] (js ''en''))"
    by blast
  ultimately show ?thesis
    using consistent_code_unit m sorted_items_example2 by blast
qed

section \<open>Properties of the cache\<close>

lemma loadDoc_frame:
  assumes "loadDoc docKeys k s = (p, s')"
  shows "effects s' = effects s" "content s' = content s" "topics s' = topics s"
    "\<exists>ext. promises s' = promises s @ ext"
  using assms by (auto simp: loadDoc_def split: if_splits option.splits)

lemma map_of_append_new: "map_of xs k = None \<Longrightarrow> map_of (xs @ [(k, v)]) k = Some v"
  by (simp add: map_add_def)

lemma map_of_append_old: "map_of xs k = Some v \<Longrightarrow> map_of (xs @ ys) k = Some v"
  by (simp add: map_add_def)

lemma loadDoc_cache_mono:
  assumes "loadDoc docKeys k s = (p, s')" "map_of (docCache s) key = Some q"
  shows "map_of (docCache s') key = Some q"
  using assms by (auto simp: loadDoc_def map_add_def split: if_splits option.splits)

lemma loadDoc_cached:
  assumes "loadDoc docKeys k s = (p, s')" "k \<in> set docKeys"
  shows "map_of (docCache s') k = Some p"
  using assms by (auto simp: loadDoc_def map_add_def split: if_splits option.splits)

lemma loadDoc_again:
  assumes "loadDoc docKeys k s = (p, s')" "k \<in> set docKeys"
  shows "loadDoc docKeys k s' = (p, s')"
  using loadDoc_cached [OF assms] assms(2) by (simp add: loadDoc_def)

lemma loadDoc_cache_ok:
  assumes "loadDoc docKeys k s = (p, s')" "cache_ok s"
  shows "cache_ok s'" "p < length (promises s')"
proof -
  have m: "map_of xs k = None \<Longrightarrow> k \<notin> fst ` set xs" for xs :: "(jsstring \<times> nat) list"
    by (simp add: map_of_eq_None_iff)
  have b: "map_of xs k = Some q \<Longrightarrow> list_all (\<lambda>kp. snd kp < n) xs \<Longrightarrow> q < n"
    for xs :: "(jsstring \<times> nat) list" and q n
    by (fastforce simp: list_all_iff dest: map_of_SomeD)
  have w: "list_all (\<lambda>kp. snd kp < n) xs \<Longrightarrow> list_all (\<lambda>kp. snd kp < Suc n) xs"
    for xs :: "(jsstring \<times> nat) list" and n
    by (auto simp: list_all_iff)
  show "cache_ok s'"
    using assms by (auto simp: loadDoc_def cache_ok_def dest: m w split: if_splits option.splits)
  show "p < length (promises s')"
    using assms by (fastforce simp: loadDoc_def cache_ok_def list_all_iff
        dest: map_of_SomeD split: if_splits option.splits)
qed

lemma load_items_frame:
  "load_items docKeys its s = (ps, s') \<Longrightarrow>
     effects s' = effects s \<and> content s' = content s \<and> topics s' = topics s \<and>
     (\<exists>ext. promises s' = promises s @ ext) \<and> length ps = length its"
proof (induction its arbitrary: s ps s')
  case Nil then show ?case by simp
next
  case (Cons i its)
  obtain p s1 where l: "loadDoc docKeys (fileKey i) s = (p, s1)" by fastforce
  obtain qs s2 where r: "load_items docKeys its s1 = (qs, s2)" by fastforce
  from Cons.prems l r have e: "ps = p # qs" "s' = s2" by (simp_all add: Let_def)
  from Cons.IH [OF r] loadDoc_frame [OF l] e show ?case by auto
qed

lemma load_items_cache_mono:
  "load_items docKeys its s = (ps, s') \<Longrightarrow> map_of (docCache s) key = Some q \<Longrightarrow>
     map_of (docCache s') key = Some q"
proof (induction its arbitrary: s ps s')
  case Nil then show ?case by simp
next
  case (Cons i its)
  obtain p s1 where l: "loadDoc docKeys (fileKey i) s = (p, s1)" by fastforce
  obtain qs s2 where r: "load_items docKeys its s1 = (qs, s2)" by fastforce
  from Cons.prems l r have e: "ps = p # qs" "s' = s2" by (simp_all add: Let_def)
  from Cons.IH [OF r] loadDoc_cache_mono [OF l Cons.prems(2)] e show ?case by auto
qed

lemma load_items_cache_ok:
  "load_items docKeys its s = (ps, s') \<Longrightarrow> cache_ok s \<Longrightarrow>
     cache_ok s' \<and> list_all (\<lambda>p. p < length (promises s')) ps"
proof (induction its arbitrary: s ps s')
  case Nil then show ?case by simp
next
  case (Cons i its)
  obtain p s1 where l: "loadDoc docKeys (fileKey i) s = (p, s1)" by fastforce
  obtain qs s2 where r: "load_items docKeys its s1 = (qs, s2)" by fastforce
  from Cons.prems l r have e: "ps = p # qs" "s' = s2" by (simp_all add: Let_def)
  from loadDoc_cache_ok [OF l Cons.prems(2)] have c: "cache_ok s1" "p < length (promises s1)" .
  from load_items_frame [OF r] c(2) have "p < length (promises s2)" by auto
  with Cons.IH [OF r c(1)] e show ?case by simp
qed

lemma resolve_key_in: "resolve_key docKeys its lang topic = Some k \<Longrightarrow> k \<in> set docKeys"
  by (auto simp: resolve_key_def Let_def split: option.splits if_splits)

lemma run_effect_shape:
  fixes lc docKeys lang topic s
  defines "its \<equiv> sorted_items lc docKeys lang"
  defines "t \<equiv> run_effect lc docKeys lang topic s"
  shows "\<exists>cp ps.
     effects t = map (\<lambda>e. e\<lparr>cancelled := True\<rparr>) (effects s) @
       [\<lparr>cancelled = False, language = lang, desired = topic, items = its,
         content_promise = cp, content_pending = (cp \<noteq> None),
         item_promises = ps, topics_pending = True\<rparr>] \<and>
     length ps = length its \<and>
     topics t = fallback_topics its \<and>
     (case resolve_key docKeys its lang topic of
        None \<Rightarrow> cp = None \<and> content t = not_found lang topic
      | Some k \<Rightarrow> cp = map_of (docCache t) k \<and> cp \<noteq> None \<and> content t = content s) \<and>
     (\<exists>ext. promises t = promises s @ ext) \<and>
     (\<forall>key q. map_of (docCache s) key = Some q \<longrightarrow> map_of (docCache t) key = Some q) \<and>
     (cache_ok s \<longrightarrow> cache_ok t \<and> list_all (\<lambda>p. p < length (promises t)) ps \<and>
        (\<forall>p. cp = Some p \<longrightarrow> p < length (promises t)))"
proof -
  define s1 where "s1 = s\<lparr>effects := map (\<lambda>e. e\<lparr>cancelled := True\<rparr>) (effects s),
    topics := map (\<lambda>i. (displaySlug i, item_title i)) its\<rparr>"
  have s1: "effects s1 = map (\<lambda>e. e\<lparr>cancelled := True\<rparr>) (effects s)"
    "topics s1 = fallback_topics its" "content s1 = content s" "promises s1 = promises s"
    "docCache s1 = docCache s" "loaderCalls s1 = loaderCalls s"
    by (simp_all add: s1_def fallback_topics_def)
  have ok1: "cache_ok s \<Longrightarrow> cache_ok s1"
    by (auto simp: cache_ok_def s1)
  show ?thesis
  proof (cases "resolve_key docKeys its lang topic")
    case None
    define s2 where "s2 = s1\<lparr>content := not_found lang topic\<rparr>"
    obtain ps s3 where li: "load_items docKeys its s2 = (ps, s3)" by fastforce
    have t: "t = s3\<lparr>effects := effects s3 @
             [\<lparr>cancelled = False, language = lang, desired = topic, items = its,
               content_promise = None, content_pending = False,
               item_promises = ps, topics_pending = True\<rparr>]\<rparr>"
      unfolding t_def run_effect_def its_def [symmetric]
      using None li by (simp add: Let_def s1_def s2_def)
    have s2: "effects s2 = effects s1" "topics s2 = topics s1" "content s2 = not_found lang topic"
      "promises s2 = promises s1" "docCache s2 = docCache s1" "loaderCalls s2 = loaderCalls s1"
      by (simp_all add: s2_def)
    have ok2: "cache_ok s \<Longrightarrow> cache_ok s2"
      using ok1 by (auto simp: cache_ok_def s2)
    note f = load_items_frame [OF li]
    have ok3: "cache_ok s \<Longrightarrow> cache_ok t \<and> list_all (\<lambda>p. p < length (promises t)) ps"
      using load_items_cache_ok [OF li] ok2 by (auto simp: t cache_ok_def)
    have mono: "map_of (docCache s) key = Some q \<Longrightarrow> map_of (docCache t) key = Some q" for key q
      using load_items_cache_mono [OF li, of key q] by (simp add: t s1 s2)
    show ?thesis
      apply (rule exI [of _ None], rule exI [of _ ps])
      using None f s1 s2 ok3 mono by (simp add: t)
  next
    case (Some k)
    obtain p s2 where ld: "loadDoc docKeys k s1 = (p, s2)" by fastforce
    obtain ps s3 where li: "load_items docKeys its s2 = (ps, s3)" by fastforce
    have t: "t = s3\<lparr>effects := effects s3 @
             [\<lparr>cancelled = False, language = lang, desired = topic, items = its,
               content_promise = Some p, content_pending = True,
               item_promises = ps, topics_pending = True\<rparr>]\<rparr>"
      unfolding t_def run_effect_def its_def [symmetric]
      using Some ld li by (simp add: Let_def s1_def)
    note g = loadDoc_frame [OF ld]
    note f = load_items_frame [OF li]
    have k: "k \<in> set docKeys" using Some by (rule resolve_key_in)
    have c2: "map_of (docCache s2) k = Some p" using ld k by (rule loadDoc_cached)
    have c3: "map_of (docCache t) k = Some p"
      using load_items_cache_mono [OF li c2] by (simp add: t)
    have mono: "map_of (docCache s) key = Some q \<Longrightarrow> map_of (docCache t) key = Some q" for key q
      using load_items_cache_mono [OF li, of key q] loadDoc_cache_mono [OF ld, of key q]
      by (simp add: t s1)
    have ok3: "cache_ok t \<and> list_all (\<lambda>p. p < length (promises t)) ps \<and> p < length (promises t)"
      if "cache_ok s"
    proof -
      from loadDoc_cache_ok [OF ld ok1 [OF that]] have a: "cache_ok s2" "p < length (promises s2)" .
      from load_items_cache_ok [OF li a(1)] f a(2) show ?thesis
        by (auto simp: t cache_ok_def)
    qed
    have pr: "\<exists>ext. promises t = promises s @ ext"
      using f g s1 by (auto simp: t)
    show ?thesis
      apply (rule exI [of _ "Some p"], rule exI [of _ ps])
      using Some f g s1 c3 ok3 mono pr by (simp add: t)
  qed
qed

lemma settle_frame:
  assumes "settle p res s = Some s'"
  shows "effects s' = effects s" "content s' = content s" "topics s' = topics s"
    "docCache s' = docCache s" "loaderCalls s' = loaderCalls s"
    "length (promises s') = length (promises s)"
    "p < length (promises s)" "promises s ! p = Pending"
    "promises s' = (promises s)[p := (case res of Some raw \<Rightarrow> Fulfilled (doc_of_raw raw)
                                      | None \<Rightarrow> Rejected)]"
  using assms by (auto simp: settle_def split: if_splits)

lemma content_reaction_frame:
  assumes "content_reaction e s = Some s'"
  shows "promises s' = promises s" "topics s' = topics s"
    "docCache s' = docCache s" "loaderCalls s' = loaderCalls s"
    "e < length (effects s)" "content_pending (effects s ! e)"
    "effects s' = (effects s)[e := (effects s ! e)\<lparr>content_pending := False\<rparr>]"
    "content s' = (if cancelled (effects s ! e) then content s
                   else published_content s (effects s ! e))"
    "\<exists>p. content_promise (effects s ! e) = Some p \<and> settled s p"
  using assms
  by (auto simp: content_reaction_def Let_def settled_def split: if_splits option.splits)

lemma settled_fun: "settled s = (\<lambda>p. p < length (promises s) \<and> promises s ! p \<noteq> Pending)"
  by (rule ext) (simp add: settled_def)

lemma topics_reaction_frame:
  assumes "topics_reaction e s = Some s'"
  shows "promises s' = promises s" "content s' = content s"
    "docCache s' = docCache s" "loaderCalls s' = loaderCalls s"
    "e < length (effects s)" "topics_pending (effects s ! e)"
    "effects s' = (effects s)[e := (effects s ! e)\<lparr>topics_pending := False\<rparr>]"
    "topics s' = (if cancelled (effects s ! e) then topics s
                  else loaded_topics s (effects s ! e))"
    "list_all (settled s) (item_promises (effects s ! e))"
  using assms
  by (auto simp: topics_reaction_def Let_def settled_fun split: if_splits)

lemma cache_ok_initial: "cache_ok initial_page"
  by (simp add: cache_ok_def initial_page_def)

lemma cache_ok_cong:
  "docCache s' = docCache s \<Longrightarrow> loaderCalls s' = loaderCalls s \<Longrightarrow>
   length (promises s') = length (promises s) \<Longrightarrow> cache_ok s \<Longrightarrow> cache_ok s'"
  by (auto simp: cache_ok_def)

lemma step_cache_ok:
  assumes "step lc docKeys ev s = Some s'" "cache_ok s"
  shows "cache_ok s'"
proof (cases ev)
  case (Resolve lang topic)
  with assms run_effect_shape [of lc docKeys lang topic s] show ?thesis by auto
next
  case (Settle p res)
  with assms settle_frame [of p res s s'] show ?thesis by (auto intro: cache_ok_cong)
next
  case (ContentReaction e)
  with assms content_reaction_frame [of e s s'] show ?thesis by (auto intro: cache_ok_cong)
next
  case (TopicsReaction e)
  with assms topics_reaction_frame [of e s s'] show ?thesis by (auto intro: cache_ok_cong)
qed

lemma step_cache_mono:
  assumes "step lc docKeys ev s = Some s'" "map_of (docCache s) key = Some q"
  shows "map_of (docCache s') key = Some q"
proof (cases ev)
  case (Resolve lang topic)
  with assms run_effect_shape [of lc docKeys lang topic s] show ?thesis by auto
next
  case (Settle p res)
  with assms settle_frame(4) [of p res s s'] show ?thesis by simp
next
  case (ContentReaction e)
  with assms content_reaction_frame(3) [of e s s'] show ?thesis by simp
next
  case (TopicsReaction e)
  with assms topics_reaction_frame(3) [of e s s'] show ?thesis by simp
qed

lemma run_cache_ok:
  "run lc docKeys evs s = Some s' \<Longrightarrow> cache_ok s \<Longrightarrow> cache_ok s'"
proof (induction evs arbitrary: s)
  case Nil then show ?case by simp
next
  case (Cons ev evs)
  then obtain s1 where s1: "step lc docKeys ev s = Some s1" "run lc docKeys evs s1 = Some s'"
    by (auto split: option.splits)
  from Cons.IH [OF s1(2) step_cache_ok [OF s1(1) Cons.prems(2)]] show ?case .
qed

lemma run_cache_mono:
  "run lc docKeys evs s = Some s' \<Longrightarrow> map_of (docCache s) key = Some q \<Longrightarrow>
     map_of (docCache s') key = Some q"
proof (induction evs arbitrary: s)
  case Nil then show ?case by simp
next
  case (Cons ev evs)
  then obtain s1 where s1: "step lc docKeys ev s = Some s1" "run lc docKeys evs s1 = Some s'"
    by (auto split: option.splits)
  from Cons.IH [OF s1(2) step_cache_mono [OF s1(1) Cons.prems(2)]] show ?case .
qed

lemma run_append:
  "run lc docKeys (evs @ evs') s =
     (case run lc docKeys evs s of Some s1 \<Rightarrow> run lc docKeys evs' s1 | None \<Rightarrow> None)"
  by (induction evs arbitrary: s) (auto split: option.splits)

lemma one_key_items:
  "sorted_items lc [js ''../content/en/index.md''] (js ''en'') =
     [\<lparr>fileKey = js ''../content/en/index.md'', slug = js ''index'', displaySlug = js ''index'',
       item_title = js ''Index'', order = NegInfinity\<rparr>]"
  unfolding sorted_items_def array_sort_def
  by (simp only: en_keys filter.simps if_True list.map item_index foldl.simps insert_sorted.simps)

lemma one_key_run:
  "run lc [js ''../content/en/index.md''] [Resolve (js ''en'') (js ''index'')] initial_page =
   Some \<lparr>promises = [Pending], docCache = [(js ''../content/en/index.md'', 0)],
          loaderCalls = [(js ''../content/en/index.md'', 0)],
          effects = [\<lparr>cancelled = False, language = js ''en'', desired = js ''index'',
            items = sorted_items lc [js ''../content/en/index.md''] (js ''en''),
            content_promise = Some 0, content_pending = True, item_promises = [0],
            topics_pending = True\<rparr>],
          content = [], topics = [(js ''index'', js ''Index'')]\<rparr>"
proof -
  have r: "resolve_key [js ''../content/en/index.md'']
      (sorted_items lc [js ''../content/en/index.md''] (js ''en'')) (js ''en'') (js ''index'') =
      Some (js ''../content/en/index.md'')"
    unfolding one_key_items by (simp add: resolve_key_def language_prefix_def)
  show ?thesis
    using r by (simp add: run_effect_def one_key_items [simplified] initial_page_def
        loadDoc_def Let_def)
qed

text \<open>
  C4. The cache is empty at the start and gets the entry of a key at the first
  \<open>loadDoc\<close> for it. Whatever happens later (no event removes or replaces an entry), a
  key that is in the cache keeps its promise. A second \<open>loadDoc\<close> for a key returns the
  promise of the first one, settled or not, and changes nothing, so it calls no loader:
  in every state the page can reach, the loader calls are those that made the entries
  of the cache, one for each key at most.
\<close>

theorem loadDoc_single_flight:
  "docCache initial_page = [] \<and>
   (run localeCompare docKeys evs initial_page = Some s \<longrightarrow>
      distinct (map fst (loaderCalls s)) \<and> docCache s = loaderCalls s) \<and>
   (run localeCompare docKeys evs' s0 = Some s1 \<and> map_of (docCache s0) k = Some p \<longrightarrow>
      map_of (docCache s1) k = Some p) \<and>
   (k \<in> set docKeys \<and> loadDoc docKeys k s0 = (p, s1) \<longrightarrow>
      map_of (docCache s1) k = Some p \<and> loadDoc docKeys k s1 = (p, s1))"
proof (intro conjI impI)
  show "docCache initial_page = []"
    by (simp add: initial_page_def)
  show "distinct (map fst (loaderCalls s))" if "run localeCompare docKeys evs initial_page = Some s"
    using run_cache_ok [OF that cache_ok_initial] by (simp add: cache_ok_def)
  show "docCache s = loaderCalls s" if "run localeCompare docKeys evs initial_page = Some s"
    using run_cache_ok [OF that cache_ok_initial] by (simp add: cache_ok_def)
  show "map_of (docCache s1) k = Some p"
    if "run localeCompare docKeys evs' s0 = Some s1 \<and> map_of (docCache s0) k = Some p"
    using run_cache_mono [of localeCompare docKeys evs' s0 s1 k p] that by blast
  show "map_of (docCache s1) k = Some p" if "k \<in> set docKeys \<and> loadDoc docKeys k s0 = (p, s1)"
    using loadDoc_cached [of docKeys k s0 p s1] that by blast
  show "loadDoc docKeys k s1 = (p, s1)" if "k \<in> set docKeys \<and> loadDoc docKeys k s0 = (p, s1)"
    using loadDoc_again [of docKeys k s0 p s1] that by blast
qed

theorem loadDoc_single_flight_witness:
  "run code_unit_compare [js ''../content/en/index.md'']
     [Resolve (js ''en'') (js ''index'')] initial_page =
   Some \<lparr>promises = [Pending], docCache = [(js ''../content/en/index.md'', 0)],
          loaderCalls = [(js ''../content/en/index.md'', 0)],
          effects = [\<lparr>cancelled = False, language = js ''en'', desired = js ''index'',
            items = sorted_items code_unit_compare [js ''../content/en/index.md''] (js ''en''),
            content_promise = Some 0, content_pending = True, item_promises = [0],
            topics_pending = True\<rparr>],
          content = [], topics = [(js ''index'', js ''Index'')]\<rparr> \<and>
   distinct (map fst (loaderCalls (the (run code_unit_compare [js ''../content/en/index.md'']
     [Resolve (js ''en'') (js ''index'')] initial_page))))"
  using loadDoc_single_flight [of code_unit_compare "[js ''../content/en/index.md'']"
      "[Resolve (js ''en'') (js ''index'')]"
      "the (run code_unit_compare [js ''../content/en/index.md'']
         [Resolve (js ''en'') (js ''index'')] initial_page)" "[]" initial_page initial_page "[]" 0]
    one_key_run [of code_unit_compare]
  by (metis option.sel)

section \<open>Properties of the effect\<close>

lemma run_core_fields [simp]:
  "cancelled (run_core r) = cancelled r" "language (run_core r) = language r"
  "desired (run_core r) = desired r" "items (run_core r) = items r"
  "content_promise (run_core r) = content_promise r"
  "item_promises (run_core r) = item_promises r"
  by (simp_all add: run_core_def)

lemma run_core_flags [simp]:
  "run_core (r\<lparr>content_pending := b\<rparr>) = run_core r"
  "run_core (r\<lparr>topics_pending := b\<rparr>) = run_core r"
  by (simp_all add: run_core_def)

lemma run_core_eqD:
  assumes "run_core r = run_core r'"
  shows "cancelled r = cancelled r'" "language r = language r'" "desired r = desired r'"
    "items r = items r'" "content_promise r = content_promise r'"
    "item_promises r = item_promises r'"
  using run_core_fields [of r] run_core_fields [of r'] assms by simp_all

lemma published_content_core:
  "run_core r = run_core r' \<Longrightarrow> published_content s r = published_content s r'"
  using run_core_eqD [of r r']
  by (auto simp: published_content_def split: option.splits promise_state.splits)

lemma loaded_topics_core:
  "run_core r = run_core r' \<Longrightarrow> loaded_topics s r = loaded_topics s r'"
  using run_core_eqD [of r r'] by (simp add: loaded_topics_def)

lemma published_content_cong:
  assumes "\<And>p. content_promise r = Some p \<Longrightarrow> promises s' ! p = promises s ! p"
  shows "published_content s' r = published_content s r"
  using assms by (simp add: published_content_def split: option.splits)

lemma loaded_topics_cong:
  assumes "\<And>p. p \<in> set (item_promises r) \<Longrightarrow> promises s' ! p = promises s ! p"
  shows "loaded_topics s' r = loaded_topics s r"
  unfolding loaded_topics_def
  by (rule map_cong [OF refl]) (auto dest: set_zip_rightD simp: assms)

lemma map_core_update:
  assumes "e < length xs" "run_core y = run_core (xs ! e)"
  shows "map run_core (xs[e := y]) = map run_core xs"
  using assms by (simp add: map_update list_update_same_conv)

lemma map_core_last:
  assumes "map run_core xs = map run_core ys" "ys \<noteq> []"
  shows "xs \<noteq> []" "run_core (last xs) = run_core (last ys)" "length xs = length ys"
proof -
  show l: "length xs = length ys" using assms(1) by (rule map_eq_imp_length_eq)
  with assms(2) show n: "xs \<noteq> []" by auto
  from assms(1) have "last (map run_core xs) = last (map run_core ys)" by simp
  with n assms(2) show "run_core (last xs) = run_core (last ys)" by (simp add: last_map)
qed

lemma map_core_cancelled:
  assumes m: "map run_core xs = map run_core ys" and c: "list_all cancelled (butlast ys)"
    and e: "Suc e < length xs"
  shows "cancelled (xs ! e)"
proof -
  have l: "length xs = length ys" using m by (rule map_eq_imp_length_eq)
  have "run_core (xs ! e) = run_core (ys ! e)"
    using m e l by (metis Suc_lessD nth_map)
  then have "cancelled (xs ! e) = cancelled (ys ! e)" by (rule run_core_eqD)
  moreover have "ys ! e \<in> set (butlast ys)"
    using e l by (metis Suc_lessD in_set_conv_nth length_butlast less_diff_conv nth_butlast
        add.commute plus_1_eq_Suc)
  ultimately show ?thesis using c by (simp add: list_all_iff)
qed

lemma tracks_refl: "fresh_run s1 \<Longrightarrow> tracks s1 s1"
  by (auto simp: fresh_run_def tracks_def)

lemma tracks_settle:
  assumes t: "tracks s1 s" and st: "settle q res s = Some s'"
  shows "tracks s1 s'"
proof -
  note f = settle_frame [OF st]
  let ?r = "last (effects s1)"
  have same: "promises s' ! p = promises s ! p" if "settled s p" for p
  proof -
    from that f(8) have "p \<noteq> q" by (auto simp: settled_def)
    then show ?thesis by (simp add: f(9))
  qed
  have keep: "settled s' p" if "settled s p" for p
    using that same [OF that] f(6) by (simp add: settled_def)
  have stable: "promises s' ! x = promises s1 ! x" if "promises s1 ! x \<noteq> Pending" for x
  proof -
    from t that have e: "promises s ! x = promises s1 ! x" by (simp add: tracks_def)
    with that f(8) have "x \<noteq> q" by auto
    with e show ?thesis by (simp add: f(9))
  qed
  have c: "content s' = published_content s' ?r \<and>
      (case content_promise ?r of Some p \<Rightarrow> settled s' p | None \<Rightarrow> True)"
    if "content s = published_content s ?r"
      "case content_promise ?r of Some p \<Rightarrow> settled s p | None \<Rightarrow> True"
  proof -
    have "published_content s' ?r = published_content s ?r"
      using that(2) by (intro published_content_cong same) simp
    with that f(2) keep show ?thesis by (auto split: option.splits)
  qed
  have tp: "topics s' = loaded_topics s' ?r \<and> list_all (settled s') (item_promises ?r)"
    if "topics s = loaded_topics s ?r" "list_all (settled s) (item_promises ?r)"
  proof -
    have "loaded_topics s' ?r = loaded_topics s ?r"
      using that(2) by (intro loaded_topics_cong same) (simp add: list_all_iff)
    with that f(3) keep show ?thesis by (auto simp: list_all_iff)
  qed
  show ?thesis
    using t c tp stable unfolding tracks_def f(1,2,3,4,5,6)
    by (auto split: if_splits)
qed

lemma last_update_other:
  assumes "xs \<noteq> []" "Suc e < length xs"
  shows "last (xs[e := y]) = last xs"
  using assms by (auto simp: last_list_update)

lemma last_update_last:
  assumes "xs \<noteq> []" "Suc e = length xs"
  shows "last (xs[e := y]) = y" "xs ! e = last xs"
proof -
  from assms(2) have "e = length xs - 1" by simp
  then show "last (xs[e := y]) = y" using assms(1) by (simp add: last_list_update)
  from assms have "e = length xs - 1" by simp
  then show "xs ! e = last xs" using assms(1) by (simp add: last_conv_nth)
qed

lemma tracks_content_reaction:
  assumes f: "fresh_run s1" and t: "tracks s1 s" and cr: "content_reaction e s = Some s'"
  shows "tracks s1 s'"
proof -
  note fr = content_reaction_frame [OF cr]
  let ?r = "last (effects s1)"
  let ?y = "(effects s ! e)\<lparr>content_pending := False\<rparr>"
  from f have ne1: "effects s1 \<noteq> []" and nc: "\<not> cancelled ?r"
    and bc: "list_all cancelled (butlast (effects s1))"
    by (simp_all add: fresh_run_def)
  from t have m: "map run_core (effects s) = map run_core (effects s1)"
    by (simp add: tracks_def)
  note ml = map_core_last [OF m ne1]
  have m': "map run_core (effects s') = map run_core (effects s1)"
    unfolding fr(7) using m fr(5) by (simp add: map_core_update)
  have basics: "length (promises s') = length (promises s1)"
    "\<forall>q. promises s1 ! q \<noteq> Pending \<longrightarrow> promises s' ! q = promises s1 ! q"
    "docCache s' = docCache s1" "loaderCalls s' = loaderCalls s1"
    using t by (simp_all add: tracks_def fr(1,3,4))
  have pc: "published_content s' r = published_content s r" for r
    by (rule published_content_cong) (simp add: fr(1))
  have lt: "loaded_topics s' r = loaded_topics s r" for r
    by (rule loaded_topics_cong) (simp add: fr(1))
  have st: "settled s' p = settled s p" for p
    by (simp add: settled_def fr(1))
  consider (last) "Suc e = length (effects s)" | (other) "Suc e < length (effects s)"
    using fr(5) by linarith
  then show ?thesis
  proof cases
    case last
    note ll = last_update_last [OF ml(1) last]
    have l': "last (effects s') = ?y" unfolding fr(7) by (rule ll(1))
    have core: "run_core (effects s ! e) = run_core ?r" using ll(2) ml(2) by simp
    then have nce: "\<not> cancelled (effects s ! e)" using nc run_core_eqD(1) by blast
    have cp: "content_promise (effects s ! e) = content_promise ?r"
      using core by (rule run_core_eqD)
    have c: "content s' = published_content s' ?r"
      using fr(8) nce published_content_core [OF core] pc by simp
    have sp: "case content_promise ?r of Some p \<Rightarrow> settled s' p | None \<Rightarrow> True"
      using fr(9) cp st by (auto split: option.splits)
    have tpend: "topics_pending (last (effects s')) = topics_pending (last (effects s))"
      unfolding l' using ll(2) by simp
    have tp: "if topics_pending (last (effects s')) then topics s' = topics s1
      else topics s' = loaded_topics s' ?r \<and> list_all (settled s') (item_promises ?r)"
      using t unfolding tpend tracks_def fr(2) lt
      by (auto simp: st [abs_def] list_all_iff split: if_splits)
    show ?thesis
      unfolding tracks_def using m' basics c sp tp l' by simp
  next
    case other
    have l': "last (effects s') = last (effects s)"
      unfolding fr(7) using ml(1) other by (rule last_update_other)
    have le: "Suc e < length (effects s)" by (rule other)
    have "cancelled (effects s ! e)"
      using m bc le by (rule map_core_cancelled)
    then have c: "content s' = content s" using fr(8) by simp
    show ?thesis
      using t unfolding tracks_def l' c fr(2) pc lt
      using m' basics by (auto simp: st [abs_def] list_all_iff split: if_splits option.splits)
  qed
qed

lemma tracks_topics_reaction:
  assumes f: "fresh_run s1" and t: "tracks s1 s" and tr: "topics_reaction e s = Some s'"
  shows "tracks s1 s'"
proof -
  note fr = topics_reaction_frame [OF tr]
  let ?r = "last (effects s1)"
  let ?y = "(effects s ! e)\<lparr>topics_pending := False\<rparr>"
  from f have ne1: "effects s1 \<noteq> []" and nc: "\<not> cancelled ?r"
    and bc: "list_all cancelled (butlast (effects s1))"
    by (simp_all add: fresh_run_def)
  from t have m: "map run_core (effects s) = map run_core (effects s1)"
    by (simp add: tracks_def)
  note ml = map_core_last [OF m ne1]
  have m': "map run_core (effects s') = map run_core (effects s1)"
    unfolding fr(7) using m fr(5) by (simp add: map_core_update)
  have basics: "length (promises s') = length (promises s1)"
    "\<forall>q. promises s1 ! q \<noteq> Pending \<longrightarrow> promises s' ! q = promises s1 ! q"
    "docCache s' = docCache s1" "loaderCalls s' = loaderCalls s1"
    using t by (simp_all add: tracks_def fr(1,3,4))
  have pc: "published_content s' r = published_content s r" for r
    by (rule published_content_cong) (simp add: fr(1))
  have lt: "loaded_topics s' r = loaded_topics s r" for r
    by (rule loaded_topics_cong) (simp add: fr(1))
  have st: "settled s' p = settled s p" for p
    by (simp add: settled_def fr(1))
  consider (last) "Suc e = length (effects s)" | (other) "Suc e < length (effects s)"
    using fr(5) by linarith
  then show ?thesis
  proof cases
    case last
    note ll = last_update_last [OF ml(1) last]
    have l': "last (effects s') = ?y" unfolding fr(7) by (rule ll(1))
    have core: "run_core (effects s ! e) = run_core ?r" using ll(2) ml(2) by simp
    then have nce: "\<not> cancelled (effects s ! e)" using nc run_core_eqD(1) by blast
    have ip: "item_promises (effects s ! e) = item_promises ?r"
      using core by (rule run_core_eqD)
    have c: "topics s' = loaded_topics s' ?r"
      using fr(8) nce loaded_topics_core [OF core] lt by simp
    have sp: "list_all (settled s') (item_promises ?r)"
      using fr(9) ip by (simp add: st [abs_def])
    have cpend: "content_pending (last (effects s')) = content_pending (last (effects s))"
      unfolding l' using ll(2) by simp
    have cp: "if content_pending (last (effects s')) then content s' = content s1
      else content s' = published_content s' ?r \<and>
           (case content_promise ?r of Some p \<Rightarrow> settled s' p | None \<Rightarrow> True)"
      using t unfolding cpend tracks_def fr(2) pc
      by (auto simp: st split: if_splits option.splits)
    show ?thesis
      unfolding tracks_def using m' basics c sp cp l' by simp
  next
    case other
    have l': "last (effects s') = last (effects s)"
      unfolding fr(7) using ml(1) other by (rule last_update_other)
    have "cancelled (effects s ! e)"
      using m bc other by (rule map_core_cancelled)
    then have c: "topics s' = topics s" using fr(8) by simp
    show ?thesis
      using t unfolding tracks_def l' c fr(2) pc lt
      using m' basics by (auto simp: st [abs_def] list_all_iff split: if_splits option.splits)
  qed
qed

lemma tracks_step:
  assumes "fresh_run s1" "tracks s1 s" "\<not> is_resolve ev" "step lc docKeys ev s = Some s'"
  shows "tracks s1 s'"
proof (cases ev)
  case (Resolve lang topic)
  with assms(3) show ?thesis by simp
next
  case (Settle p res)
  with assms show ?thesis by (auto intro: tracks_settle)
next
  case (ContentReaction e)
  with assms show ?thesis by (auto intro: tracks_content_reaction)
next
  case (TopicsReaction e)
  with assms show ?thesis by (auto intro: tracks_topics_reaction)
qed

lemma tracks_run:
  "fresh_run s1 \<Longrightarrow> tracks s1 s \<Longrightarrow> \<forall>ev \<in> set evs. \<not> is_resolve ev \<Longrightarrow>
     run lc docKeys evs s = Some s' \<Longrightarrow> tracks s1 s'"
proof (induction evs arbitrary: s)
  case Nil then show ?case by simp
next
  case (Cons ev evs)
  from Cons.prems(4) obtain s2 where s2: "step lc docKeys ev s = Some s2"
    "run lc docKeys evs s2 = Some s'"
    by (auto split: option.splits)
  have "tracks s1 s2"
    using Cons.prems(1,2) _ s2(1) by (rule tracks_step) (use Cons.prems(3) in simp)
  then show ?case
    using Cons.IH [of s2] Cons.prems(1,3) s2(2) by simp
qed

lemma fresh_run_effect: "fresh_run (run_effect lc docKeys lang topic s)"
proof -
  let ?t = "run_effect lc docKeys lang topic s"
  let ?its = "sorted_items lc docKeys lang"
  from run_effect_shape [of lc docKeys lang topic s] obtain cp ps where
    e: "effects ?t = map (\<lambda>e. e\<lparr>cancelled := True\<rparr>) (effects s) @
       [\<lparr>cancelled = False, language = lang, desired = topic, items = ?its,
         content_promise = cp, content_pending = (cp \<noteq> None),
         item_promises = ps, topics_pending = True\<rparr>]"
    and r: "case resolve_key docKeys ?its lang topic of
        None \<Rightarrow> cp = None \<and> content ?t = not_found lang topic
      | Some k \<Rightarrow> cp = map_of (docCache ?t) k \<and> cp \<noteq> None \<and> content ?t = content s"
    by blast
  have c: "content_pending (last (effects ?t)) \<or>
      content ?t = published_content ?t (last (effects ?t)) \<and>
      content_promise (last (effects ?t)) = None"
  proof (cases cp)
    case None
    with r have "content ?t = not_found lang topic" by (auto split: option.splits)
    with None show ?thesis by (simp add: e published_content_def)
  next
    case (Some p)
    then show ?thesis by (simp add: e)
  qed
  have "list_all cancelled (butlast (effects ?t))"
    by (simp add: e list_all_iff)
  with c show ?thesis
    unfolding fresh_run_def by (simp add: e)
qed

end
